theory Spec2Isabelle
  imports Complex_Main "HOL-Library.AList" "HOL-Library.While_Combinator"
begin

section \<open>Topology graph\<close>

text \<open>
  The Go maps of the topology are association lists: a key occurs at most once in a Go map,
  and the order of the list stands for the order in which a \<^verbatim>\<open>range\<close> statement visits
  the entries. Costs are \<^verbatim>\<open>float64\<close> in the source and real numbers here.
\<close>

datatype NodeStatus =
  NodeStatusUnknown | NodeStatusAlive | NodeStatusSuspect | NodeStatusFailed | NodeStatusLeft

record NodeInfo =
  ID :: string
  IP :: string
  Port :: int
  RPCAddr :: string
  Status :: NodeStatus

type_synonym adjacency = "(string \<times> (string \<times> real) list) list"

record Topology =
  nodes :: "(string \<times> NodeInfo) list"
  edges :: adjacency

definition NewTopology :: Topology where
  "NewTopology = \<lparr>nodes = [], edges = []\<rparr>"

text \<open>\<^verbatim>\<open>if t.edges[k] == nil { t.edges[k] = make(map[string]float64) }\<close>\<close>

definition ensure_adj :: "string \<Rightarrow> adjacency \<Rightarrow> adjacency" where
  "ensure_adj k es = (case map_of es k of None \<Rightarrow> AList.update k [] es | Some m \<Rightarrow> es)"

text \<open>
  \<^verbatim>\<open>t.edges[a][b] = c\<close>. Every caller runs \<open>ensure_adj a\<close> first, so the inner map is
  there; on a missing inner map Go would panic, and the model leaves the adjacency as it is.
\<close>

definition set_cost :: "string \<Rightarrow> string \<Rightarrow> real \<Rightarrow> adjacency \<Rightarrow> adjacency" where
  "set_cost a b c es =
     (case map_of es a of None \<Rightarrow> es | Some m \<Rightarrow> AList.update a (AList.update b c m) es)"

text \<open>\<^verbatim>\<open>delete(t.edges[a], b)\<close>: deleting from a missing (nil) map does nothing.\<close>

definition delete_cost :: "string \<Rightarrow> string \<Rightarrow> adjacency \<Rightarrow> adjacency" where
  "delete_cost a b es =
     (case map_of es a of None \<Rightarrow> es | Some m \<Rightarrow> AList.update a (AList.delete b m) es)"

definition AddNode :: "Topology \<Rightarrow> NodeInfo \<Rightarrow> Topology" where
  "AddNode t node =
     t\<lparr>nodes := AList.update (ID node) node (nodes t),
       edges := ensure_adj (ID node) (edges t)\<rparr>"

definition RemoveNode :: "Topology \<Rightarrow> string \<Rightarrow> Topology" where
  "RemoveNode t nodeName =
     (let ns = AList.delete nodeName (nodes t);
          es = (case map_of (edges t) nodeName of
                  None \<Rightarrow> edges t
                | Some neighbors \<Rightarrow>
                    fold (\<lambda>neighbor es. delete_cost neighbor nodeName es)
                      (map fst neighbors) (edges t))
      in t\<lparr>nodes := ns, edges := AList.delete nodeName es\<rparr>)"

definition UpdateLink :: "Topology \<Rightarrow> string \<Rightarrow> string \<Rightarrow> real \<Rightarrow> Topology" where
  "UpdateLink t from to cost =
     (let es1 = ensure_adj from (edges t);
          es2 = ensure_adj to es1;
          es3 = set_cost from to cost es2;
          es4 = set_cost to from cost es3
      in t\<lparr>edges := es4\<rparr>)"

definition RemoveLink :: "Topology \<Rightarrow> string \<Rightarrow> string \<Rightarrow> Topology" where
  "RemoveLink t from to = t\<lparr>edges := delete_cost to from (delete_cost from to (edges t))\<rparr>"

text \<open>
  \<^verbatim>\<open>cost, exists := t.edges[from][to]\<close>: a missing key at either level reads as the zero
  value with \<^verbatim>\<open>exists = false\<close>.
\<close>

definition GetCost :: "Topology \<Rightarrow> string \<Rightarrow> string \<Rightarrow> real \<times> bool" where
  "GetCost t from to =
     (case map_of (edges t) from of
        None \<Rightarrow> (0, False)
      | Some m \<Rightarrow> (case map_of m to of None \<Rightarrow> (0, False) | Some c \<Rightarrow> (c, True)))"

text \<open>The copy loop of \<^verbatim>\<open>GetNeighbors\<close>: a fresh map filled entry by entry.\<close>

definition GetNeighbors :: "Topology \<Rightarrow> string \<Rightarrow> (string \<times> real) list" where
  "GetNeighbors t nodeName =
     fold (\<lambda>(neighbor, cost) neighbors. AList.update neighbor cost neighbors)
       (case map_of (edges t) nodeName of None \<Rightarrow> [] | Some m \<Rightarrow> m) []"

definition GetNode :: "Topology \<Rightarrow> string \<Rightarrow> NodeInfo option" where
  "GetNode t nodeID = map_of (nodes t) nodeID"

definition GetAllNodes :: "Topology \<Rightarrow> NodeInfo list" where
  "GetAllNodes t = map snd (nodes t)"

text \<open>
  The abstract reading of the adjacency: \<open>link t a b\<close> is the entry \<^verbatim>\<open>edges[a][b]\<close>, if any.
\<close>

definition link :: "Topology \<Rightarrow> string \<Rightarrow> string \<Rightarrow> real option" where
  "link t a b = (case map_of (edges t) a of None \<Rightarrow> None | Some m \<Rightarrow> map_of m b)"

definition symmetric :: "Topology \<Rightarrow> bool" where
  "symmetric t = (\<forall>a b. link t a b = link t b a)"

subsection \<open>Reading the adjacency after each mutation\<close>

lemma GetCost_link:
  "GetCost t a b = (case link t a b of None \<Rightarrow> (0, False) | Some c \<Rightarrow> (c, True))"
  by (simp add: GetCost_def link_def split: option.splits)

definition elink :: "adjacency \<Rightarrow> string \<Rightarrow> string \<Rightarrow> real option" where
  "elink es a b = (case map_of es a of None \<Rightarrow> None | Some m \<Rightarrow> map_of m b)"

lemma link_elink: "link t a b = elink (edges t) a b"
  by (simp add: link_def elink_def)

lemma elink_ensure_adj [simp]: "elink (ensure_adj k es) a b = elink es a b"
  by (simp add: elink_def ensure_adj_def update_conv' split: option.splits)

lemma map_of_ensure_adj_same: "map_of (ensure_adj k es) k \<noteq> None"
  by (simp add: ensure_adj_def update_conv' split: option.splits)

lemma map_of_ensure_adj_other:
  "map_of es a \<noteq> None \<Longrightarrow> map_of (ensure_adj k es) a \<noteq> None"
  by (simp add: ensure_adj_def update_conv' split: option.splits)

lemma elink_set_cost:
  "map_of es a \<noteq> None \<Longrightarrow>
   elink (set_cost a b c es) x y = (if x = a \<and> y = b then Some c else elink es x y)"
  by (auto simp: elink_def set_cost_def update_conv' split: option.splits)

lemma map_of_set_cost_keeps:
  "map_of es x \<noteq> None \<Longrightarrow> map_of (set_cost a b c es) x \<noteq> None"
  by (auto simp: set_cost_def update_conv' split: option.splits)

lemma elink_delete_cost:
  "elink (delete_cost a b es) x y = (if x = a \<and> y = b then None else elink es x y)"
  by (auto simp: elink_def delete_cost_def update_conv' delete_conv' split: option.splits)

lemma elink_delete_key:
  "elink (AList.delete k es) x y = (if x = k then None else elink es x y)"
  by (auto simp: elink_def delete_conv' split: option.splits)

lemma elink_fold_delete_cost:
  "elink (fold (\<lambda>neighbor es. delete_cost neighbor n es) ks es) x y =
     (if x \<in> set ks \<and> y = n then None else elink es x y)"
  by (induction ks arbitrary: es) (auto simp: elink_delete_cost)

lemma elink_ensure2_set2:
  "elink (set_cost b a c (set_cost a b c (ensure_adj b (ensure_adj a es)))) x y =
     (if x = b \<and> y = a then Some c else if x = a \<and> y = b then Some c else elink es x y)"
proof -
  let ?es2 = "ensure_adj b (ensure_adj a es)"
  have a2: "map_of ?es2 a \<noteq> None"
    by (rule map_of_ensure_adj_other) (rule map_of_ensure_adj_same)
  have b2: "map_of ?es2 b \<noteq> None"
    by (rule map_of_ensure_adj_same)
  have b3: "map_of (set_cost a b c ?es2) b \<noteq> None"
    using b2 by (rule map_of_set_cost_keeps)
  have "elink (set_cost b a c (set_cost a b c ?es2)) x y =
        (if x = b \<and> y = a then Some c else elink (set_cost a b c ?es2) x y)"
    by (rule elink_set_cost [OF b3])
  also have "elink (set_cost a b c ?es2) x y = (if x = a \<and> y = b then Some c else elink ?es2 x y)"
    by (rule elink_set_cost [OF a2])
  also have "elink ?es2 x y = elink es x y"
    by simp
  finally show ?thesis .
qed

lemma link_UpdateLink_fwd: "link (UpdateLink t a b c) a b = Some c"
  by (simp add: link_elink UpdateLink_def Let_def elink_ensure2_set2)

lemma link_UpdateLink_bwd: "link (UpdateLink t a b c) b a = Some c"
  by (simp add: link_elink UpdateLink_def Let_def elink_ensure2_set2)

lemma edges_UpdateLink:
  "edges (UpdateLink t a b c) =
     set_cost b a c (set_cost a b c (ensure_adj b (ensure_adj a (edges t))))"
  by (simp add: UpdateLink_def Let_def)

lemma edges_RemoveLink:
  "edges (RemoveLink t a b) = delete_cost b a (delete_cost a b (edges t))"
  by (simp add: RemoveLink_def)

lemma link_UpdateLink_other:
  assumes "\<not> (x = a \<and> y = b)" and "\<not> (x = b \<and> y = a)"
  shows "link (UpdateLink t a b c) x y = link t x y"
proof -
  have "link (UpdateLink t a b c) x y =
        (if x = b \<and> y = a then Some c else if x = a \<and> y = b then Some c else link t x y)"
    by (simp only: link_elink edges_UpdateLink elink_ensure2_set2)
  with assms show ?thesis
    by (simp only: if_False)
qed

lemma link_RemoveLink_fwd: "link (RemoveLink t a b) a b = None"
  by (simp add: link_elink RemoveLink_def elink_delete_cost)

lemma link_RemoveLink_bwd: "link (RemoveLink t a b) b a = None"
  by (simp add: link_elink RemoveLink_def elink_delete_cost)

lemma link_RemoveLink_other:
  assumes "\<not> (x = a \<and> y = b)" and "\<not> (x = b \<and> y = a)"
  shows "link (RemoveLink t a b) x y = link t x y"
proof -
  have "link (RemoveLink t a b) x y =
        (if x = b \<and> y = a then None else if x = a \<and> y = b then None else link t x y)"
    by (simp only: link_elink edges_RemoveLink elink_delete_cost)
  with assms show ?thesis
    by (simp only: if_False)
qed

lemma link_AddNode [simp]: "link (AddNode t node) x y = link t x y"
  by (simp add: link_elink AddNode_def)

lemma elink_RemoveNode_aux:
  "elink (AList.delete n (fold (\<lambda>neighbor es. delete_cost neighbor n es) ks es)) x y =
     (if x = n then None else if x \<in> set ks \<and> y = n then None else elink es x y)"
  by (simp only: elink_delete_key elink_fold_delete_cost)

lemma link_RemoveNode_from: "link (RemoveNode t n) n y = None"
  by (simp add: link_elink RemoveNode_def Let_def elink_delete_key split: option.splits)

lemma link_RemoveNode_to:
  assumes "link t n x \<noteq> None"
  shows "link (RemoveNode t n) x n = None"
proof -
  from assms obtain m where m: "map_of (edges t) n = Some m" and "map_of m x \<noteq> None"
    by (auto simp: link_def split: option.splits)
  then have "x \<in> set (map fst m)"
    by (simp add: map_of_eq_None_iff)
  then show ?thesis
    using m by (simp add: link_elink RemoveNode_def Let_def elink_RemoveNode_aux)
qed

lemma link_RemoveNode_other:
  assumes "x \<noteq> n" and "y \<noteq> n"
  shows "link (RemoveNode t n) x y = link t x y"
  using assms
  by (simp add: link_elink RemoveNode_def Let_def elink_fold_delete_cost elink_delete_key
      split: option.splits)

lemma symmetric_NewTopology: "symmetric NewTopology"
  by (simp add: symmetric_def link_def NewTopology_def)

lemma symmetric_AddNode: "symmetric t \<Longrightarrow> symmetric (AddNode t node)"
  by (simp add: symmetric_def)

lemma symmetric_UpdateLink:
  assumes "symmetric t"
  shows "symmetric (UpdateLink t a b c)"
  unfolding symmetric_def
proof (intro allI)
  fix x y
  consider "x = a \<and> y = b" | "x = b \<and> y = a" | "\<not> (x = a \<and> y = b)" "\<not> (x = b \<and> y = a)"
    by blast
  then show "link (UpdateLink t a b c) x y = link (UpdateLink t a b c) y x"
  proof cases
    case 1
    then show ?thesis by (simp only: link_UpdateLink_fwd link_UpdateLink_bwd)
  next
    case 2
    then show ?thesis by (simp only: link_UpdateLink_fwd link_UpdateLink_bwd)
  next
    case 3
    have "link (UpdateLink t a b c) x y = link t x y"
      by (rule link_UpdateLink_other) (use 3 in blast)+
    moreover have "link (UpdateLink t a b c) y x = link t y x"
      by (rule link_UpdateLink_other) (use 3 in blast)+
    moreover have "link t x y = link t y x"
      using assms by (simp only: symmetric_def)
    ultimately show ?thesis
      by (simp only:)
  qed
qed

lemma symmetric_RemoveLink:
  assumes "symmetric t"
  shows "symmetric (RemoveLink t a b)"
  unfolding symmetric_def
proof (intro allI)
  fix x y
  consider "x = a \<and> y = b" | "x = b \<and> y = a" | "\<not> (x = a \<and> y = b)" "\<not> (x = b \<and> y = a)"
    by blast
  then show "link (RemoveLink t a b) x y = link (RemoveLink t a b) y x"
  proof cases
    case 1
    then show ?thesis by (simp only: link_RemoveLink_fwd link_RemoveLink_bwd)
  next
    case 2
    then show ?thesis by (simp only: link_RemoveLink_fwd link_RemoveLink_bwd)
  next
    case 3
    have "link (RemoveLink t a b) x y = link t x y"
      by (rule link_RemoveLink_other) (use 3 in blast)+
    moreover have "link (RemoveLink t a b) y x = link t y x"
      by (rule link_RemoveLink_other) (use 3 in blast)+
    moreover have "link t x y = link t y x"
      using assms by (simp only: symmetric_def)
    ultimately show ?thesis
      by (simp only:)
  qed
qed

lemma link_RemoveNode_to_sym:
  assumes "symmetric t"
  shows "link (RemoveNode t n) x n = None"
proof (cases "link t n x")
  case None
  show ?thesis
  proof (cases "x = n")
    case True
    then show ?thesis by (simp only: link_RemoveNode_from)
  next
    case False
    have "link t x n = None"
      using assms None by (simp only: symmetric_def)
    have "elink (edges t) x n = None"
      using \<open>link t x n = None\<close> by (simp only: link_elink)
    then show ?thesis
      using False
      by (simp add: link_elink RemoveNode_def Let_def elink_fold_delete_cost elink_delete_key
          split: option.splits)
  qed
next
  case (Some c)
  then show ?thesis
    by (intro link_RemoveNode_to) simp
qed

lemma symmetric_RemoveNode:
  assumes "symmetric t"
  shows "symmetric (RemoveNode t n)"
  unfolding symmetric_def
proof (intro allI)
  fix x y
  consider "x = n" | "y = n" | "x \<noteq> n" "y \<noteq> n"
    by blast
  then show "link (RemoveNode t n) x y = link (RemoveNode t n) y x"
  proof cases
    case 1
    then show ?thesis
      by (simp only: link_RemoveNode_from link_RemoveNode_to_sym [OF assms])
  next
    case 2
    then show ?thesis
      by (simp only: link_RemoveNode_from link_RemoveNode_to_sym [OF assms])
  next
    case 3
    have "link (RemoveNode t n) x y = link t x y"
      using 3 by (rule link_RemoveNode_other)
    moreover have "link (RemoveNode t n) y x = link t y x"
      using 3(2,1) by (rule link_RemoveNode_other)
    moreover have "link t x y = link t y x"
      using assms by (simp only: symmetric_def)
    ultimately show ?thesis
      by (simp only:)
  qed
qed

text \<open>
  C4. From the empty topology every mutator keeps the adjacency symmetric. After
  \<open>UpdateLink t a b c\<close> both \<open>GetCost a b\<close> and \<open>GetCost b a\<close> return \<open>c\<close> with
  \<open>exists = true\<close>, and after \<open>RemoveNode t a\<close> on a symmetric topology \<open>GetCost x a\<close>
  and \<open>GetCost a x\<close> report a missing link for every \<open>x\<close>.
\<close>

theorem topology_symmetry:
  "symmetric NewTopology \<and>
   GetCost (UpdateLink t a b c) a b = (c, True) \<and>
   GetCost (UpdateLink t a b c) b a = (c, True) \<and>
   (symmetric t \<longrightarrow>
      symmetric (AddNode t node) \<and> symmetric (UpdateLink t a b c) \<and>
      symmetric (RemoveLink t a b) \<and> symmetric (RemoveNode t a) \<and>
      (\<forall>x. snd (GetCost (RemoveNode t a) x a) = False \<and>
           snd (GetCost (RemoveNode t a) a x) = False))"
proof -
  have "snd (GetCost (RemoveNode t a) a x) = False" for x
    by (simp add: GetCost_link link_RemoveNode_from)
  moreover have "symmetric t \<Longrightarrow> snd (GetCost (RemoveNode t a) x a) = False" for x
    by (simp add: GetCost_link link_RemoveNode_to_sym)
  moreover have "GetCost (UpdateLink t a b c) a b = (c, True)"
    by (simp add: GetCost_link link_UpdateLink_fwd)
  moreover have "GetCost (UpdateLink t a b c) b a = (c, True)"
    by (simp add: GetCost_link link_UpdateLink_bwd)
  ultimately show ?thesis
    using symmetric_NewTopology symmetric_AddNode symmetric_UpdateLink
      symmetric_RemoveLink symmetric_RemoveNode
    by blast
qed

theorem topology_symmetry_witness:
  "symmetric (UpdateLink NewTopology ''A'' ''B'' 3) \<and>
   GetCost (UpdateLink (UpdateLink NewTopology ''A'' ''B'' 3) ''A'' ''C'' 2) ''C'' ''A'' = (2, True) \<and>
   symmetric (RemoveNode (UpdateLink NewTopology ''A'' ''B'' 3) ''A'') \<and>
   snd (GetCost (RemoveNode (UpdateLink NewTopology ''A'' ''B'' 3) ''A'') ''B'' ''A'') = False"
proof -
  have s: "symmetric (UpdateLink NewTopology ''A'' ''B'' 3)"
    by (intro symmetric_UpdateLink symmetric_NewTopology)
  show ?thesis
    using s topology_symmetry [of "UpdateLink NewTopology ''A'' ''B'' 3" "''A''" "''C''" 2]
    by blast
qed

section \<open>Topology sync\<close>

record TopologyLinkEntry =
  From :: string
  To :: string
  Cost :: real

record TopologySyncEvent =
  NodeID :: string
  Links :: "TopologyLinkEntry list"

record LinkUpdateEvent =
  ev_From :: string
  ev_To :: string
  ev_Cost :: real
  ev_Op :: string

text \<open>
  The state of one \<^verbatim>\<open>TopologySync\<close>: the id of its node, the topology it shares with the
  node, whether a change callback has been registered, how often the callback has run, and
  whether the membership instance exists together with the user events handed to it.
\<close>

record TopologySync =
  node_ID :: string
  topology :: Topology
  onTopologyChange :: bool
  callbackRuns :: nat
  serf :: bool
  userEvents :: "LinkUpdateEvent list"

definition triggerTopologyChange :: "TopologySync \<Rightarrow> TopologySync" where
  "triggerTopologyChange ts =
     (if onTopologyChange ts then ts\<lparr>callbackRuns := callbackRuns ts + 1\<rparr> else ts)"

text \<open>The body of the loop over \<^verbatim>\<open>event.Links\<close>, on the topology and \<^verbatim>\<open>topologyChanged\<close>.\<close>

definition merge_link :: "TopologyLinkEntry \<Rightarrow> Topology \<times> bool \<Rightarrow> Topology \<times> bool" where
  "merge_link l = (\<lambda>(t, topologyChanged).
     (let (existingCost, exists) = GetCost t (From l) (To l) in
      if \<not> exists then (UpdateLink t (From l) (To l) (Cost l), True)
      else if existingCost \<noteq> Cost l then
        (if Cost l < existingCost then (UpdateLink t (From l) (To l) (Cost l), True)
         else (t, topologyChanged))
      else (t, topologyChanged)))"

definition handleTopologySync :: "TopologySync \<Rightarrow> TopologySyncEvent \<Rightarrow> TopologySync" where
  "handleTopologySync ts event =
     (if NodeID event = node_ID ts then ts
      else
        (let (t, topologyChanged) = fold merge_link (Links event) (topology ts, False);
             ts' = ts\<lparr>topology := t\<rparr>
         in if topologyChanged then triggerTopologyChange ts' else ts'))"



subsection \<open>The merge, link by link\<close>

text \<open>
  A link of a sync event is adopted when the local graph has no such link or has it at a
  strictly higher cost.
\<close>

definition adopts :: "Topology \<Rightarrow> TopologyLinkEntry \<Rightarrow> bool" where
  "adopts t l =
     (\<not> snd (GetCost t (From l) (To l)) \<or> Cost l < fst (GetCost t (From l) (To l)))"

definition merge_one :: "Topology \<Rightarrow> TopologyLinkEntry \<Rightarrow> Topology" where
  "merge_one t l = (if adopts t l then UpdateLink t (From l) (To l) (Cost l) else t)"

fun adopted_any :: "Topology \<Rightarrow> TopologyLinkEntry list \<Rightarrow> bool" where
  "adopted_any t [] = False"
| "adopted_any t (l # ls) = (adopts t l \<or> adopted_any (merge_one t l) ls)"

lemma merge_link_step:
  "merge_link l (t, ch) = (merge_one t l, ch \<or> adopts t l)"
  by (auto simp: merge_link_def merge_one_def adopts_def split: prod.splits)

lemma fold_merge_link:
  "fold merge_link ls (t, ch) = (foldl merge_one t ls, ch \<or> adopted_any t ls)"
  by (induction ls arbitrary: t ch) (auto simp: merge_link_step)

lemma adopts_link:
  "adopts t l \<longleftrightarrow> (case link t (From l) (To l) of None \<Rightarrow> True | Some c \<Rightarrow> Cost l < c)"
  by (simp add: adopts_def GetCost_link split: option.splits)

lemma symmetric_merge_one: "symmetric t \<Longrightarrow> symmetric (merge_one t l)"
  by (simp add: merge_one_def symmetric_UpdateLink)

lemma symmetric_foldl_merge_one: "symmetric t \<Longrightarrow> symmetric (foldl merge_one t ls)"
  by (induction ls arbitrary: t) (simp_all add: symmetric_merge_one)

lemma not_adopts_after_self: "\<not> adopts (merge_one t l) l"
  by (simp add: merge_one_def adopts_link link_UpdateLink_fwd)

lemma not_adopts_preserved:
  assumes sym: "symmetric t" and keep: "\<not> adopts t l"
  shows "\<not> adopts (merge_one t l') l"
proof (cases "adopts t l'")
  case False
  with keep show ?thesis by (simp add: merge_one_def)
next
  case True
  let ?t' = "UpdateLink t (From l') (To l') (Cost l')"
  from keep obtain c where c: "link t (From l) (To l) = Some c" "c \<le> Cost l"
    by (auto simp: adopts_link split: option.splits)
  consider (same) "From l = From l' \<and> To l = To l'"
    | (flip) "From l = To l' \<and> To l = From l'"
    | (other) "\<not> (From l = From l' \<and> To l = To l')" "\<not> (From l = To l' \<and> To l = From l')"
    by blast
  then have "\<exists>d. link ?t' (From l) (To l) = Some d \<and> d \<le> Cost l"
  proof cases
    case same
    then have "link t (From l') (To l') = Some c"
      using c(1) by (simp only:)
    with True have "Cost l' < c"
      by (simp add: adopts_link)
    moreover have "link ?t' (From l) (To l) = Some (Cost l')"
      using same by (simp only: link_UpdateLink_fwd)
    ultimately show ?thesis
      using c(2) by simp
  next
    case flip
    then have "link t (To l') (From l') = Some c"
      using c(1) by (simp only:)
    then have "link t (From l') (To l') = Some c"
      using sym by (simp only: symmetric_def)
    with True have "Cost l' < c"
      by (simp add: adopts_link)
    moreover have "link ?t' (From l) (To l) = Some (Cost l')"
      using flip by (simp only: link_UpdateLink_bwd)
    ultimately show ?thesis
      using c(2) by simp
  next
    case other
    then have "link ?t' (From l) (To l) = link t (From l) (To l)"
      by (rule link_UpdateLink_other)
    with c show ?thesis by simp
  qed
  then have "\<not> adopts ?t' l"
    by (auto simp: adopts_link)
  with True show ?thesis
    by (simp add: merge_one_def)
qed

lemma merged_links_settled:
  "symmetric t \<Longrightarrow> l \<in> set ls \<Longrightarrow> \<not> adopts (foldl merge_one t ls) l"
proof (induction ls arbitrary: l rule: rev_induct)
  case Nil
  then show ?case by simp
next
  case (snoc x xs)
  show ?case
  proof (cases "l = x")
    case True
    then show ?thesis by (simp add: not_adopts_after_self)
  next
    case False
    with snoc.prems have "l \<in> set xs" by simp
    then have "\<not> adopts (foldl merge_one t xs) l"
      using snoc.IH snoc.prems(1) by blast
    then show ?thesis
      using not_adopts_preserved [OF symmetric_foldl_merge_one [OF snoc.prems(1)]]
      by simp
  qed
qed

lemma settled_fixpoint:
  "(\<And>l. l \<in> set ls \<Longrightarrow> \<not> adopts t l) \<Longrightarrow> foldl merge_one t ls = t \<and> \<not> adopted_any t ls"
  by (induction ls) (simp_all add: merge_one_def)

text \<open>
  C3. A sync event from the node itself changes nothing. Otherwise the loop visits the
  links in order, and at each link the code's nested tests come to: the link is written with
  \<open>UpdateLink\<close> exactly when the local graph lacks it or holds it at a strictly higher cost
  (\<open>adopts\<close>, read from \<open>GetCost\<close> on the graph as the earlier links left it), and the
  local graph is kept otherwise. The registered callback runs once when some link was
  adopted and not at all when none was.
\<close>

theorem handleTopologySync_merge:
  "(NodeID event = node_ID ts \<longrightarrow> handleTopologySync ts event = ts) \<and>
   merge_link l (t, ch) =
     (if adopts t l then (UpdateLink t (From l) (To l) (Cost l), True) else (t, ch)) \<and>
   (adopts t l \<longrightarrow> GetCost (fst (merge_link l (t, ch))) (From l) (To l) = (Cost l, True)) \<and>
   (NodeID event \<noteq> node_ID ts \<longrightarrow>
      topology (handleTopologySync ts event) = fst (fold merge_link (Links event) (topology ts, False)) \<and>
      topology (handleTopologySync ts event) = foldl merge_one (topology ts) (Links event) \<and>
      callbackRuns (handleTopologySync ts event) =
        (if onTopologyChange ts \<and> adopted_any (topology ts) (Links event)
         then callbackRuns ts + 1 else callbackRuns ts))"
proof -
  have "handleTopologySync ts event = ts" if "NodeID event = node_ID ts"
    using that by (simp add: handleTopologySync_def)
  moreover have "merge_link l (t, ch) =
     (if adopts t l then (UpdateLink t (From l) (To l) (Cost l), True) else (t, ch))"
    by (simp add: merge_link_step merge_one_def)
  moreover have "GetCost (fst (merge_link l (t, ch))) (From l) (To l) = (Cost l, True)"
    if "adopts t l"
    using that by (simp add: merge_link_step merge_one_def GetCost_link link_UpdateLink_fwd)
  moreover have "topology (handleTopologySync ts event) =
      fst (fold merge_link (Links event) (topology ts, False))"
    if "NodeID event \<noteq> node_ID ts"
    using that
    by (simp add: handleTopologySync_def fold_merge_link triggerTopologyChange_def Let_def)
  moreover have "topology (handleTopologySync ts event) =
      foldl merge_one (topology ts) (Links event)"
    if "NodeID event \<noteq> node_ID ts"
    using that
    by (simp add: handleTopologySync_def fold_merge_link triggerTopologyChange_def Let_def)
  moreover have "callbackRuns (handleTopologySync ts event) =
        (if onTopologyChange ts \<and> adopted_any (topology ts) (Links event)
         then callbackRuns ts + 1 else callbackRuns ts)"
    if "NodeID event \<noteq> node_ID ts"
    using that
    by (simp add: handleTopologySync_def fold_merge_link triggerTopologyChange_def Let_def)
  ultimately show ?thesis
    by blast
qed

text \<open>
  C8. On a symmetric topology (every topology built by the mutators is one), a sync event
  from another node that is processed a second time changes neither the topology nor the
  number of callback runs.
\<close>

theorem handleTopologySync_idempotent:
  assumes "symmetric (topology ts)" and "NodeID event \<noteq> node_ID ts"
  shows "handleTopologySync (handleTopologySync ts event) event = handleTopologySync ts event"
proof -
  let ?ts1 = "handleTopologySync ts event"
  let ?t1 = "foldl merge_one (topology ts) (Links event)"
  have t1: "topology ?ts1 = ?t1" and id1: "node_ID ?ts1 = node_ID ts"
    using assms(2)
    by (simp_all add: handleTopologySync_def fold_merge_link triggerTopologyChange_def Let_def)
  have "\<not> adopts ?t1 l" if "l \<in> set (Links event)" for l
    using assms(1) that by (rule merged_links_settled)
  then have "foldl merge_one ?t1 (Links event) = ?t1 \<and> \<not> adopted_any ?t1 (Links event)"
    by (rule settled_fixpoint)
  then have "fold merge_link (Links event) (topology ?ts1, False) = (topology ?ts1, False)"
    by (simp add: fold_merge_link t1)
  then show ?thesis
    using assms(2) id1 by (simp add: handleTopologySync_def [of ?ts1])
qed

theorem handleTopologySync_merge_witness:
  "handleTopologySync
     \<lparr>node_ID = ''A'', topology = UpdateLink NewTopology ''A'' ''B'' 3, onTopologyChange = True,
      callbackRuns = 0, serf = False, userEvents = []\<rparr>
     \<lparr>NodeID = ''A'', Links = [\<lparr>From = ''A'', To = ''B'', Cost = 1\<rparr>]\<rparr> =
     \<lparr>node_ID = ''A'', topology = UpdateLink NewTopology ''A'' ''B'' 3, onTopologyChange = True,
      callbackRuns = 0, serf = False, userEvents = []\<rparr> \<and>
   adopts (UpdateLink NewTopology ''A'' ''B'' 3) \<lparr>From = ''A'', To = ''B'', Cost = 1\<rparr> \<and>
   GetCost (fst (merge_link \<lparr>From = ''A'', To = ''B'', Cost = 1\<rparr>
     (UpdateLink NewTopology ''A'' ''B'' 3, False))) ''A'' ''B'' = (1, True) \<and>
   callbackRuns (handleTopologySync
     \<lparr>node_ID = ''A'', topology = UpdateLink NewTopology ''A'' ''B'' 3, onTopologyChange = True,
      callbackRuns = 0, serf = False, userEvents = []\<rparr>
     \<lparr>NodeID = ''B'', Links = [\<lparr>From = ''A'', To = ''B'', Cost = 1\<rparr>]\<rparr>) = 1"
proof -
  let ?t = "UpdateLink NewTopology ''A'' ''B'' 3"
  let ?l = "\<lparr>From = ''A'', To = ''B'', Cost = 1\<rparr>"
  let ?ts = "\<lparr>node_ID = ''A'', topology = ?t, onTopologyChange = True,
      callbackRuns = 0, serf = False, userEvents = []\<rparr>"
  have a: "adopts ?t ?l"
    by (simp add: adopts_link link_UpdateLink_fwd)
  have own: "NodeID \<lparr>NodeID = ''A'', Links = [?l]\<rparr> = node_ID ?ts"
    by simp
  have other: "NodeID \<lparr>NodeID = ''B'', Links = [?l]\<rparr> \<noteq> node_ID ?ts"
    by simp
  show ?thesis
    using a own other
      handleTopologySync_merge [of "\<lparr>NodeID = ''A'', Links = [?l]\<rparr>" ?ts ?l ?t False]
      handleTopologySync_merge [of "\<lparr>NodeID = ''B'', Links = [?l]\<rparr>" ?ts ?l ?t False]
    by simp
qed

theorem handleTopologySync_idempotent_witness:
  "symmetric (UpdateLink NewTopology ''A'' ''B'' 3) \<and>
   handleTopologySync (handleTopologySync
     \<lparr>node_ID = ''A'', topology = UpdateLink NewTopology ''A'' ''B'' 3, onTopologyChange = True,
      callbackRuns = 0, serf = False, userEvents = []\<rparr>
     \<lparr>NodeID = ''B'', Links = [\<lparr>From = ''A'', To = ''B'', Cost = 1\<rparr>]\<rparr>)
     \<lparr>NodeID = ''B'', Links = [\<lparr>From = ''A'', To = ''B'', Cost = 1\<rparr>]\<rparr> =
   handleTopologySync
     \<lparr>node_ID = ''A'', topology = UpdateLink NewTopology ''A'' ''B'' 3, onTopologyChange = True,
      callbackRuns = 0, serf = False, userEvents = []\<rparr>
     \<lparr>NodeID = ''B'', Links = [\<lparr>From = ''A'', To = ''B'', Cost = 1\<rparr>]\<rparr>"
proof -
  have s: "symmetric (UpdateLink NewTopology ''A'' ''B'' 3)"
    by (intro symmetric_UpdateLink symmetric_NewTopology)
  show ?thesis
    using s handleTopologySync_idempotent
      [of "\<lparr>node_ID = ''A'', topology = UpdateLink NewTopology ''A'' ''B'' 3,
            onTopologyChange = True, callbackRuns = 0, serf = False, userEvents = []\<rparr>"
          "\<lparr>NodeID = ''B'', Links = [\<lparr>From = ''A'', To = ''B'', Cost = 1\<rparr>]\<rparr>"]
    by simp
qed

section \<open>Control plane: AddLink\<close>




text \<open>
  The control server shares its topology with the topology sync, which may be absent
  (\<^verbatim>\<open>s.TopologySync != nil\<close>). The model keeps the shared graph in \<open>cs_Topology\<close> and
  hands it to the sync and back where the source goes through the sync's pointer.
\<close>

record ControlServer =
  cs_NodeID :: string
  cs_Topology :: Topology
  cs_TopologySync :: "TopologySync option"

text \<open>
  \<open>probe\<close> is what \<^verbatim>\<open>probeLinkCost\<close> returns from the neighbour (an error text or the
  probed cost) and \<open>emit_ok\<close> whether the broadcast of the link update succeeds.
\<close>












section \<open>Data plane: link probe\<close>

record ProbeRequest =
  pr_Source :: string
  pr_Target :: string
  SelfDebug :: bool

record ProbeResponse =
  pb_Success :: bool
  pb_Message :: string
  RttMs :: int
  pb_Cost :: real

text \<open>
  \<open>intn\<close> is the draw \<^verbatim>\<open>rand.Intn(50)\<close> and \<open>float64\<close> the draw \<^verbatim>\<open>rand.Float64()\<close>.
  Without \<^verbatim>\<open>self_debug\<close> the source panics; the panic is the \<open>Inl\<close> result.
\<close>

definition ProbeLinkQuality :: "ProbeRequest \<Rightarrow> int \<Rightarrow> real \<Rightarrow> string + ProbeResponse" where
  "ProbeLinkQuality req intn float64 =
     (if SelfDebug req then
        (let rttMs = 1 + intn;
             cost = 1.0 + float64 * 19.0
         in Inr \<lparr>pb_Success = True, pb_Message = [], RttMs = rttMs, pb_Cost = cost\<rparr>)
      else Inl ''TODO: implement real link quality probe with actual RTT measurement'')"

text \<open>
  C9. With \<^verbatim>\<open>self_debug\<close> set, for every draw \<open>0 \<le> intn < 50\<close> of \<^verbatim>\<open>rand.Intn(50)\<close> and
  every draw \<open>0 \<le> float64 < 1\<close> of \<^verbatim>\<open>rand.Float64()\<close>, the probe answers with
  \<^verbatim>\<open>success = true\<close>, \<open>1 \<le> rtt_ms \<le> 50\<close> and \<open>1 \<le> cost \<le> 20\<close>.
\<close>

theorem ProbeLinkQuality_self_debug:
  assumes "SelfDebug req" and "0 \<le> intn" and "intn < 50" and "0 \<le> float64" and "float64 < 1"
  shows "\<exists>resp. ProbeLinkQuality req intn float64 = Inr resp \<and> pb_Success resp \<and>
           1 \<le> RttMs resp \<and> RttMs resp \<le> 50 \<and> 1 \<le> pb_Cost resp \<and> pb_Cost resp \<le> 20"
  using assms by (simp add: ProbeLinkQuality_def Let_def)

theorem ProbeLinkQuality_self_debug_witness:
  "SelfDebug \<lparr>pr_Source = ''A'', pr_Target = [], SelfDebug = True\<rparr> \<and>
   (\<exists>resp. ProbeLinkQuality \<lparr>pr_Source = ''A'', pr_Target = [], SelfDebug = True\<rparr> 49 (1 / 2)
              = Inr resp \<and> pb_Success resp \<and>
      1 \<le> RttMs resp \<and> RttMs resp \<le> 50 \<and> 1 \<le> pb_Cost resp \<and> pb_Cost resp \<le> 20)"
  using ProbeLinkQuality_self_debug
    [of "\<lparr>pr_Source = ''A'', pr_Target = [], SelfDebug = True\<rparr>" 49 "1 / 2"]
  by simp

section \<open>Forward manager\<close>

record Packet =
  Source :: string
  Destination :: string
  PacketId :: string
  Payload :: string
  NextHop :: string
  VisitedNodes :: "string list"

record Route =
  rt_Destination :: string
  rt_NextHop :: string
  rt_Cost :: real
  Path :: "string list"

record ForwardStats =
  PacketsSent :: nat
  PacketsReceived :: nat
  PacketsForwarded :: nat
  PacketsDelivered :: nat
  PacketsDropped :: nat

record ForwardResponse =
  fr_Success :: bool
  fr_Message :: string

text \<open>
  One forward manager: its node id, the topology and the current routing table it reads,
  its counters, and the packets it has delivered (the source logs them with their visited
  path). The connection pool only decides whether a connection is reused and is left out;
  what remains of \<^verbatim>\<open>getClient\<close> is the address it dials.
\<close>

record ForwardManager =
  nodeID :: string
  fm_topology :: Topology
  routes :: "(string \<times> Route) list"
  stats :: ForwardStats
  deliveredLog :: "Packet list"

text \<open>The cluster: which forward manager serves which gRPC address.\<close>

type_synonym cluster = "(string \<times> ForwardManager) list"

text \<open>\<^verbatim>\<open>%d\<close> of \<^verbatim>\<open>fmt.Sprintf\<close>: the decimal digits of an integer.\<close>

definition digit :: "nat \<Rightarrow> char" where
  "digit n = ''0123456789'' ! n"

fun fmt_nat :: "nat \<Rightarrow> string" where
  "fmt_nat n = (if n < 10 then [digit n] else fmt_nat (n div 10) @ [digit (n mod 10)])"

declare fmt_nat.simps [simp del]

definition fmt_d :: "int \<Rightarrow> string" where
  "fmt_d i = (if i < 0 then ''-'' @ fmt_nat (nat (- i)) else fmt_nat (nat i))"

definition clientAddr :: "NodeInfo \<Rightarrow> string" where
  "clientAddr nodeInfo =
     (if RPCAddr nodeInfo = [] then IP nodeInfo @ '':'' @ fmt_d (Port nodeInfo)
      else RPCAddr nodeInfo)"

definition GetRoute :: "(string \<times> Route) list \<Rightarrow> string \<Rightarrow> string + Route" where
  "GetRoute rt destination =
     (case map_of rt destination of
        None \<Rightarrow> Inl (''route '' @ destination @ '' not found'')
      | Some r \<Rightarrow> Inr r)"

definition on_stats :: "(ForwardStats \<Rightarrow> ForwardStats) \<Rightarrow> string \<Rightarrow> cluster \<Rightarrow> cluster" where
  "on_stats f addr c =
     (case map_of c addr of None \<Rightarrow> c | Some fm \<Rightarrow> AList.update addr (fm\<lparr>stats := f (stats fm)\<rparr>) c)"

definition dropped :: "string \<Rightarrow> cluster \<Rightarrow> cluster" where
  "dropped = on_stats (\<lambda>s. s\<lparr>PacketsDropped := PacketsDropped s + 1\<rparr>)"

definition forwarded :: "string \<Rightarrow> cluster \<Rightarrow> cluster" where
  "forwarded = on_stats (\<lambda>s. s\<lparr>PacketsForwarded := PacketsForwarded s + 1\<rparr>)"

definition received :: "string \<Rightarrow> cluster \<Rightarrow> cluster" where
  "received = on_stats (\<lambda>s. s\<lparr>PacketsReceived := PacketsReceived s + 1\<rparr>)"

definition sent :: "string \<Rightarrow> cluster \<Rightarrow> cluster" where
  "sent = on_stats (\<lambda>s. s\<lparr>PacketsSent := PacketsSent s + 1\<rparr>)"

definition delivered :: "string \<Rightarrow> Packet \<Rightarrow> cluster \<Rightarrow> cluster" where
  "delivered addr packet c =
     (case map_of c addr of
        None \<Rightarrow> c
      | Some fm \<Rightarrow>
          AList.update addr
            (fm\<lparr>stats := (stats fm)\<lparr>PacketsDelivered := PacketsDelivered (stats fm) + 1\<rparr>,
                deliveredLog := deliveredLog fm @ [packet]\<rparr>) c)"

text \<open>
  The forward RPC is a chain of nested calls, one per hop, that a routing loop would
  prolong until the deadline of the caller's context. The fuel is that deadline: a call
  made with no fuel left fails with the transport's deadline error. A call to an address
  that no forward manager serves fails in the transport as well.
\<close>

fun HandleIncomingPacket ::
    "nat \<Rightarrow> cluster \<Rightarrow> string \<Rightarrow> Packet \<Rightarrow> cluster \<times> (string + ForwardResponse)"
  and forwardPacket :: "nat \<Rightarrow> cluster \<Rightarrow> string \<Rightarrow> Packet \<Rightarrow> cluster \<times> string option"
where
  "HandleIncomingPacket 0 c addr packet = (c, Inl ''context deadline exceeded'')"
| "HandleIncomingPacket (Suc n) c addr packet =
     (case map_of c addr of
        None \<Rightarrow> (c, Inl ''connection refused'')
      | Some fm \<Rightarrow>
          (let c1 = received addr c;
               packet1 = packet\<lparr>VisitedNodes := VisitedNodes packet @ [nodeID fm]\<rparr>
           in if Destination packet1 = nodeID fm then
                (delivered addr packet1 c1,
                 Inr \<lparr>fr_Success = True, fr_Message = ''Packet delivered''\<rparr>)
              else
                (case forwardPacket n c1 addr packet1 of
                   (c2, Some err) \<Rightarrow> (c2, Inr \<lparr>fr_Success = False, fr_Message = err\<rparr>)
                 | (c2, None) \<Rightarrow>
                     (c2, Inr \<lparr>fr_Success = True, fr_Message = ''Packet forwarded''\<rparr>))))"
| "forwardPacket n c addr packet =
     (case map_of c addr of
        None \<Rightarrow> (c, Some ''connection refused'')
      | Some fm \<Rightarrow>
          (case GetRoute (routes fm) (Destination packet) of
             Inl err \<Rightarrow>
               (dropped addr c, Some (''no route to '' @ Destination packet @ '': '' @ err))
           | Inr route \<Rightarrow>
               (let packet1 = packet\<lparr>NextHop := rt_NextHop route\<rparr> in
                case GetNode (fm_topology fm) (rt_NextHop route) of
                  None \<Rightarrow>
                    (dropped addr c,
                     Some (''next hop node '' @ rt_NextHop route @ '' not found''))
                | Some nextHopNode \<Rightarrow>
                    (case HandleIncomingPacket n c (clientAddr nextHopNode) packet1 of
                       (c1, Inl err) \<Rightarrow>
                         (dropped addr c1, Some (''failed to forward packet: '' @ err))
                     | (c1, Inr resp) \<Rightarrow>
                         if \<not> fr_Success resp then
                           (dropped addr c1, Some (''forward failed: '' @ fr_Message resp))
                         else (forwarded addr c1, None)))))"

definition newPacket :: "string \<Rightarrow> string \<Rightarrow> string \<Rightarrow> int \<Rightarrow> Packet" where
  "newPacket self destination payload now =
     \<lparr>Source = self, Destination = destination,
      PacketId = ''pkt-'' @ self @ ''-'' @ fmt_d now,
      Payload = payload, NextHop = [], VisitedNodes = [self]\<rparr>"

text \<open>\<open>now\<close> is \<^verbatim>\<open>time.Now().UnixNano()\<close>.\<close>

definition SendPacket ::
  "nat \<Rightarrow> cluster \<Rightarrow> string \<Rightarrow> string \<Rightarrow> string \<Rightarrow> int \<Rightarrow> cluster \<times> string option" where
  "SendPacket n c addr destination payload now =
     (case map_of c addr of
        None \<Rightarrow> (c, Some ''connection refused'')
      | Some fm \<Rightarrow>
          forwardPacket n (sent addr c) addr (newPacket (nodeID fm) destination payload now))"

text \<open>
  Control-plane \<^verbatim>\<open>SendPacket\<close>: the request is checked, a packet without an id gets one,
  and the packet is handed to \<^verbatim>\<open>ForwardPacket\<close> of the node at the source address.
\<close>

record SendPacketRequest =
  SourceAddress :: string
  sp_Packet :: "Packet option"

record SendPacketResponse =
  sp_Success :: bool
  sp_Message :: string
  sp_PacketId :: string

definition ControlServer_SendPacket ::
  "nat \<Rightarrow> cluster \<Rightarrow> ControlServer \<Rightarrow> SendPacketRequest \<Rightarrow> int \<Rightarrow> cluster \<times> SendPacketResponse"
where
  "ControlServer_SendPacket n c s req now =
     (if SourceAddress req = [] then
        (c, \<lparr>sp_Success = False, sp_Message = ''source address cannot be empty'',
             sp_PacketId = []\<rparr>)
      else
        (case sp_Packet req of
           None \<Rightarrow>
             (c, \<lparr>sp_Success = False, sp_Message = ''packet cannot be nil'', sp_PacketId = []\<rparr>)
         | Some packet \<Rightarrow>
             (let packetID =
                    (if PacketId packet = [] then ''pkt-'' @ fmt_d now @ ''-'' @ cs_NodeID s
                     else PacketId packet);
                  packet1 = packet\<lparr>PacketId := packetID\<rparr>
              in case HandleIncomingPacket n c (SourceAddress req) packet1 of
                   (c1, Inl err) \<Rightarrow>
                     (c1, \<lparr>sp_Success = False, sp_Message = ''failed to send packet: '' @ err,
                           sp_PacketId = packetID\<rparr>)
                 | (c1, Inr resp) \<Rightarrow>
                     if \<not> fr_Success resp then
                       (c1, \<lparr>sp_Success = False,
                             sp_Message = ''packet forwarding failed: '' @ fr_Message resp,
                             sp_PacketId = packetID\<rparr>)
                     else
                       (c1, \<lparr>sp_Success = True,
                             sp_Message = ''packet sent successfully: '' @ fr_Message resp,
                             sp_PacketId = packetID\<rparr>))))"

subsection \<open>One hop\<close>

declare HandleIncomingPacket.simps [simp del] forwardPacket.simps [simp del]

lemma map_of_on_stats_other: "x \<noteq> a \<Longrightarrow> map_of (on_stats f a c) x = map_of c x"
  by (simp add: on_stats_def update_conv' split: option.splits)

lemma map_of_on_stats_same:
  "map_of c a = Some fm \<Longrightarrow> map_of (on_stats f a c) a = Some (fm\<lparr>stats := f (stats fm)\<rparr>)"
  by (simp add: on_stats_def update_conv')

lemma map_of_delivered_other: "x \<noteq> a \<Longrightarrow> map_of (delivered a p c) x = map_of c x"
  by (simp add: delivered_def update_conv' split: option.splits)

lemma map_of_delivered_same:
  "map_of c a = Some fm \<Longrightarrow> map_of (delivered a p c) a =
     Some (fm\<lparr>stats := (stats fm)\<lparr>PacketsDelivered := PacketsDelivered (stats fm) + 1\<rparr>,
                deliveredLog := deliveredLog fm @ [p]\<rparr>)"
  by (simp add: delivered_def update_conv')

lemma forwardPacket_hands_over:
  assumes "map_of c addr = Some fm"
    and "map_of (routes fm) (Destination packet) = Some route"
    and "GetNode (fm_topology fm) (rt_NextHop route) = Some nextHopNode"
  shows "forwardPacket n c addr packet =
     (case HandleIncomingPacket n c (clientAddr nextHopNode) (packet\<lparr>NextHop := rt_NextHop route\<rparr>) of
        (c1, Inl err) \<Rightarrow> (dropped addr c1, Some (''failed to forward packet: '' @ err))
      | (c1, Inr resp) \<Rightarrow>
          if \<not> fr_Success resp then (dropped addr c1, Some (''forward failed: '' @ fr_Message resp))
          else (forwarded addr c1, None))"
  using assms by (simp add: GetRoute_def Let_def forwardPacket.simps split: prod.splits sum.splits)

lemma HandleIncomingPacket_at_destination:
  assumes "map_of c addr = Some fm" and "Destination packet = nodeID fm"
  shows "HandleIncomingPacket (Suc n) c addr packet =
     (delivered addr (packet\<lparr>VisitedNodes := VisitedNodes packet @ [nodeID fm]\<rparr>) (received addr c),
      Inr \<lparr>fr_Success = True, fr_Message = ''Packet delivered''\<rparr>)"
  using assms by (simp add: Let_def HandleIncomingPacket.simps)

lemma HandleIncomingPacket_in_transit:
  assumes "map_of c addr = Some fm" and "Destination packet \<noteq> nodeID fm"
  shows "HandleIncomingPacket (Suc n) c addr packet =
     (case forwardPacket n (received addr c) addr
             (packet\<lparr>VisitedNodes := VisitedNodes packet @ [nodeID fm]\<rparr>) of
        (c2, Some err) \<Rightarrow> (c2, Inr \<lparr>fr_Success = False, fr_Message = err\<rparr>)
      | (c2, None) \<Rightarrow> (c2, Inr \<lparr>fr_Success = True, fr_Message = ''Packet forwarded''\<rparr>))"
  using assms by (simp add: Let_def HandleIncomingPacket.simps split: prod.splits option.splits)

text \<open>
  C5. A node sends to a destination for which it has a route whose next hop resolves to a
  peer with another id. The minted packet has the sender as source and as its only visited
  node. The peer's handler answers with a delivery exactly when the destination is the
  peer's id; it then records the packet with visited nodes [sender, peer], each once, and
  the send returns without error. Otherwise the peer forwards the packet on, again with
  visited nodes [sender, peer].
\<close>

theorem send_one_hop:
  assumes self: "map_of c addr = Some fm"
    and route: "map_of (routes fm) destination = Some route"
    and hop: "GetNode (fm_topology fm) (rt_NextHop route) = Some nextHopNode"
    and peer: "map_of c (clientAddr nextHopNode) = Some peer"
    and other: "nodeID peer \<noteq> nodeID fm"
  shows "Source (newPacket (nodeID fm) destination payload now) = nodeID fm \<and>
    VisitedNodes (newPacket (nodeID fm) destination payload now) = [nodeID fm] \<and>
    (snd (HandleIncomingPacket (Suc n) (sent addr c) (clientAddr nextHopNode)
            ((newPacket (nodeID fm) destination payload now)\<lparr>NextHop := rt_NextHop route\<rparr>))
       = Inr \<lparr>fr_Success = True, fr_Message = ''Packet delivered''\<rparr>
     \<longleftrightarrow> destination = nodeID peer) \<and>
    (destination = nodeID peer \<longrightarrow>
       snd (SendPacket (Suc n) c addr destination payload now) = None \<and>
       (\<exists>peer'. map_of (fst (SendPacket (Suc n) c addr destination payload now))
                  (clientAddr nextHopNode) = Some peer' \<and>
          deliveredLog peer' = deliveredLog peer @
            [(newPacket (nodeID fm) destination payload now)
               \<lparr>NextHop := rt_NextHop route, VisitedNodes := [nodeID fm, nodeID peer]\<rparr>]) \<and>
       count_list [nodeID fm, nodeID peer] (nodeID fm) = 1 \<and>
       count_list [nodeID fm, nodeID peer] (nodeID peer) = 1) \<and>
    (destination \<noteq> nodeID peer \<longrightarrow>
       HandleIncomingPacket (Suc n) (sent addr c) (clientAddr nextHopNode)
            ((newPacket (nodeID fm) destination payload now)\<lparr>NextHop := rt_NextHop route\<rparr>) =
         (case forwardPacket n (received (clientAddr nextHopNode) (sent addr c))
                 (clientAddr nextHopNode)
                 ((newPacket (nodeID fm) destination payload now)
                    \<lparr>NextHop := rt_NextHop route, VisitedNodes := [nodeID fm, nodeID peer]\<rparr>) of
            (c2, Some err) \<Rightarrow> (c2, Inr \<lparr>fr_Success = False, fr_Message = err\<rparr>)
          | (c2, None) \<Rightarrow> (c2, Inr \<lparr>fr_Success = True, fr_Message = ''Packet forwarded''\<rparr>)))"
proof -
  let ?pa = "clientAddr nextHopNode"
  let ?pkt = "newPacket (nodeID fm) destination payload now"
  let ?c1 = "sent addr c"
  have ne: "?pa \<noteq> addr" using self peer other by auto
  have self1: "map_of ?c1 addr = Some (fm\<lparr>stats := (stats fm)\<lparr>PacketsSent := PacketsSent (stats fm) + 1\<rparr>\<rparr>)"
    using self by (simp add: sent_def map_of_on_stats_same)
  have peer1: "map_of ?c1 ?pa = Some peer"
    using peer ne by (simp add: sent_def map_of_on_stats_other)
  have send: "SendPacket (Suc n) c addr destination payload now = forwardPacket (Suc n) ?c1 addr ?pkt"
    using self by (simp add: SendPacket_def)
  have fwd: "forwardPacket (Suc n) ?c1 addr ?pkt =
     (case HandleIncomingPacket (Suc n) ?c1 ?pa (?pkt\<lparr>NextHop := rt_NextHop route\<rparr>) of
        (c1, Inl err) \<Rightarrow> (dropped addr c1, Some (''failed to forward packet: '' @ err))
      | (c1, Inr resp) \<Rightarrow>
          if \<not> fr_Success resp then (dropped addr c1, Some (''forward failed: '' @ fr_Message resp))
          else (forwarded addr c1, None))"
    by (rule forwardPacket_hands_over [OF self1]) (use route hop in \<open>simp_all add: newPacket_def\<close>)
  have deliver: "snd (SendPacket (Suc n) c addr destination payload now) = None \<and>
       (\<exists>peer'. map_of (fst (SendPacket (Suc n) c addr destination payload now)) ?pa = Some peer' \<and>
          deliveredLog peer' = deliveredLog peer @
            [?pkt\<lparr>NextHop := rt_NextHop route, VisitedNodes := [nodeID fm, nodeID peer]\<rparr>])"
    if d: "destination = nodeID peer"
  proof -
    let ?p2 = "?pkt\<lparr>NextHop := rt_NextHop route, VisitedNodes := [nodeID fm, nodeID peer]\<rparr>"
    let ?c2 = "delivered ?pa ?p2 (received ?pa ?c1)"
    have "Destination (?pkt\<lparr>NextHop := rt_NextHop route\<rparr>) = nodeID peer"
      using d by (simp add: newPacket_def)
    from HandleIncomingPacket_at_destination [OF peer1 this, of n]
    have h: "HandleIncomingPacket (Suc n) ?c1 ?pa (?pkt\<lparr>NextHop := rt_NextHop route\<rparr>) =
        (?c2, Inr \<lparr>fr_Success = True, fr_Message = ''Packet delivered''\<rparr>)"
      by (simp add: newPacket_def)
    have res: "SendPacket (Suc n) c addr destination payload now = (forwarded addr ?c2, None)"
      unfolding send fwd h by simp
    have "map_of (received ?pa ?c1) ?pa =
        Some (peer\<lparr>stats := (stats peer)\<lparr>PacketsReceived := PacketsReceived (stats peer) + 1\<rparr>\<rparr>)"
      using peer1 by (simp add: received_def map_of_on_stats_same)
    then have "\<exists>peer'. map_of ?c2 ?pa = Some peer' \<and> deliveredLog peer' = deliveredLog peer @ [?p2]"
      by (simp add: map_of_delivered_same)
    then have "\<exists>peer'. map_of (forwarded addr ?c2) ?pa = Some peer' \<and>
        deliveredLog peer' = deliveredLog peer @ [?p2]"
      using ne by (simp add: forwarded_def map_of_on_stats_other)
    then show ?thesis
      unfolding res by simp
  qed
  have transit: "HandleIncomingPacket (Suc n) ?c1 ?pa (?pkt\<lparr>NextHop := rt_NextHop route\<rparr>) =
         (case forwardPacket n (received ?pa ?c1) ?pa
                 (?pkt\<lparr>NextHop := rt_NextHop route, VisitedNodes := [nodeID fm, nodeID peer]\<rparr>) of
            (c2, Some err) \<Rightarrow> (c2, Inr \<lparr>fr_Success = False, fr_Message = err\<rparr>)
          | (c2, None) \<Rightarrow> (c2, Inr \<lparr>fr_Success = True, fr_Message = ''Packet forwarded''\<rparr>))"
    if d: "destination \<noteq> nodeID peer"
  proof -
    have "Destination (?pkt\<lparr>NextHop := rt_NextHop route\<rparr>) \<noteq> nodeID peer"
      using d by (simp add: newPacket_def)
    from HandleIncomingPacket_in_transit [OF peer1 this, of n]
    show ?thesis
      by (simp add: newPacket_def)
  qed
  have answer: "snd (HandleIncomingPacket (Suc n) ?c1 ?pa (?pkt\<lparr>NextHop := rt_NextHop route\<rparr>))
       = Inr \<lparr>fr_Success = True, fr_Message = ''Packet delivered''\<rparr>
     \<longleftrightarrow> destination = nodeID peer"
  proof (cases "destination = nodeID peer")
    case True
    then have "Destination (?pkt\<lparr>NextHop := rt_NextHop route\<rparr>) = nodeID peer"
      by (simp add: newPacket_def)
    from HandleIncomingPacket_at_destination [OF peer1 this, of n] True
    show ?thesis by simp
  next
    case False
    then show ?thesis
      unfolding transit [OF False] by (simp split: prod.splits option.splits)
  qed
  have counts: "count_list [nodeID fm, nodeID peer] (nodeID fm) = 1 \<and>
       count_list [nodeID fm, nodeID peer] (nodeID peer) = 1"
    using other by simp
  have src: "Source ?pkt = nodeID fm" and visited: "VisitedNodes ?pkt = [nodeID fm]"
    by (simp_all add: newPacket_def)
  have at_peer: "destination = nodeID peer \<longrightarrow>
       snd (SendPacket (Suc n) c addr destination payload now) = None \<and>
       (\<exists>peer'. map_of (fst (SendPacket (Suc n) c addr destination payload now)) ?pa = Some peer' \<and>
          deliveredLog peer' = deliveredLog peer @
            [?pkt\<lparr>NextHop := rt_NextHop route, VisitedNodes := [nodeID fm, nodeID peer]\<rparr>]) \<and>
       count_list [nodeID fm, nodeID peer] (nodeID fm) = 1 \<and>
       count_list [nodeID fm, nodeID peer] (nodeID peer) = 1"
  proof
    assume d: "destination = nodeID peer"
    from deliver [OF d] counts
    show "snd (SendPacket (Suc n) c addr destination payload now) = None \<and>
       (\<exists>peer'. map_of (fst (SendPacket (Suc n) c addr destination payload now)) ?pa = Some peer' \<and>
          deliveredLog peer' = deliveredLog peer @
            [?pkt\<lparr>NextHop := rt_NextHop route, VisitedNodes := [nodeID fm, nodeID peer]\<rparr>]) \<and>
       count_list [nodeID fm, nodeID peer] (nodeID fm) = 1 \<and>
       count_list [nodeID fm, nodeID peer] (nodeID peer) = 1"
      by (simp only: simp_thms)
  qed
  from transit have onward: "destination \<noteq> nodeID peer \<longrightarrow>
       HandleIncomingPacket (Suc n) ?c1 ?pa (?pkt\<lparr>NextHop := rt_NextHop route\<rparr>) =
         (case forwardPacket n (received ?pa ?c1) ?pa
                 (?pkt\<lparr>NextHop := rt_NextHop route, VisitedNodes := [nodeID fm, nodeID peer]\<rparr>) of
            (c2, Some err) \<Rightarrow> (c2, Inr \<lparr>fr_Success = False, fr_Message = err\<rparr>)
          | (c2, None) \<Rightarrow> (c2, Inr \<lparr>fr_Success = True, fr_Message = ''Packet forwarded''\<rparr>))"
    by (rule impI)
  show ?thesis
    by (intro conjI src visited answer at_peer onward)
qed

text \<open>The one-hop scenario: A and B with the link A-B, and A sends ``hi'' to B.\<close>

definition demo_infoB :: NodeInfo where
  "demo_infoB = \<lparr>ID = ''B'', IP = [], Port = 0, RPCAddr = ''b:2'', Status = NodeStatusAlive\<rparr>"

definition demo_fmA :: ForwardManager where
  "demo_fmA =
     \<lparr>nodeID = ''A'', fm_topology = AddNode NewTopology demo_infoB,
      routes = [(''B'', \<lparr>rt_Destination = ''B'', rt_NextHop = ''B'', rt_Cost = 1,
                         Path = [''A'', ''B'']\<rparr>)],
      stats = \<lparr>PacketsSent = 0, PacketsReceived = 0, PacketsForwarded = 0,
               PacketsDelivered = 0, PacketsDropped = 0\<rparr>,
      deliveredLog = []\<rparr>"

definition demo_fmB :: ForwardManager where
  "demo_fmB =
     \<lparr>nodeID = ''B'', fm_topology = NewTopology, routes = [],
      stats = \<lparr>PacketsSent = 0, PacketsReceived = 0, PacketsForwarded = 0,
               PacketsDelivered = 0, PacketsDropped = 0\<rparr>,
      deliveredLog = []\<rparr>"

definition demo_cluster :: cluster where
  "demo_cluster = [(''a:1'', demo_fmA), (''b:2'', demo_fmB)]"

theorem send_one_hop_witness:
  "map_of demo_cluster ''a:1'' = Some demo_fmA \<and>
   map_of demo_cluster ''b:2'' = Some demo_fmB \<and>
   snd (SendPacket 1 demo_cluster ''a:1'' ''B'' ''hi'' 5) = None \<and>
   (\<exists>peer'. map_of (fst (SendPacket 1 demo_cluster ''a:1'' ''B'' ''hi'' 5)) ''b:2'' = Some peer' \<and>
      deliveredLog peer' =
        [\<lparr>Source = ''A'', Destination = ''B'', PacketId = ''pkt-A-5'', Payload = ''hi'',
          NextHop = ''B'', VisitedNodes = [''A'', ''B'']\<rparr>])"
proof -
  let ?route = "\<lparr>rt_Destination = ''B'', rt_NextHop = ''B'', rt_Cost = 1, Path = [''A'', ''B'']\<rparr>"
  have self: "map_of demo_cluster ''a:1'' = Some demo_fmA"
    by (simp add: demo_cluster_def)
  have route: "map_of (routes demo_fmA) ''B'' = Some ?route"
    by (simp add: demo_fmA_def)
  have hop: "GetNode (fm_topology demo_fmA) (rt_NextHop ?route) = Some demo_infoB"
    by (simp add: demo_fmA_def GetNode_def AddNode_def NewTopology_def demo_infoB_def)
  have addr: "clientAddr demo_infoB = ''b:2''"
    by (simp add: clientAddr_def demo_infoB_def)
  have peer: "map_of demo_cluster (clientAddr demo_infoB) = Some demo_fmB"
    by (simp add: addr demo_cluster_def)
  have other: "nodeID demo_fmB \<noteq> nodeID demo_fmA"
    by (simp add: demo_fmA_def demo_fmB_def)
  have ids: "nodeID demo_fmA = ''A''" "nodeID demo_fmB = ''B''" "deliveredLog demo_fmB = []"
    by (simp_all add: demo_fmA_def demo_fmB_def)
  have five: "fmt_d 5 = ''5''"
    by (simp add: fmt_d_def fmt_nat.simps digit_def)
  show ?thesis
    using send_one_hop [OF self route hop peer other, of "''hi''" 5 0] self peer
    by (simp add: addr ids newPacket_def five)
qed

text \<open>
  C6. The forward manager mints ``pkt-'' followed by the node id, a dash and the
  nanoseconds. The control-plane path puts the nanoseconds before the node id: for the
  node nodeA at 1700000000000000000 ns it assigns pkt-1700000000000000000-nodeA where
  the forward manager assigns pkt-nodeA-1700000000000000000. An id that is already there
  is kept.
\<close>

theorem packet_id_at_control_plane:
  "PacketId (newPacket ''nodeA'' ''nodeB'' ''hi'' 1700000000000000000)
     = ''pkt-nodeA-1700000000000000000'' \<and>
   sp_PacketId (snd (ControlServer_SendPacket 0 []
      \<lparr>cs_NodeID = ''nodeA'', cs_Topology = NewTopology, cs_TopologySync = None\<rparr>
      \<lparr>SourceAddress = ''localhost:5001'',
       sp_Packet = Some \<lparr>Source = ''nodeA'', Destination = ''nodeB'', PacketId = [],
                          Payload = ''hi'', NextHop = [], VisitedNodes = []\<rparr>\<rparr>
      1700000000000000000))
     = ''pkt-1700000000000000000-nodeA'' \<and>
   sp_PacketId (snd (ControlServer_SendPacket 0 []
      \<lparr>cs_NodeID = ''nodeA'', cs_Topology = NewTopology, cs_TopologySync = None\<rparr>
      \<lparr>SourceAddress = ''localhost:5001'',
       sp_Packet = Some \<lparr>Source = ''nodeA'', Destination = ''nodeB'', PacketId = ''pkt-001'',
                          Payload = ''hi'', NextHop = [], VisitedNodes = []\<rparr>\<rparr>
      1700000000000000000))
     = ''pkt-001''"
proof -
  have "fmt_d 1700000000000000000 = ''1700000000000000000''"
    by (simp add: fmt_d_def fmt_nat.simps digit_def)
  then show ?thesis
    by (simp add: newPacket_def ControlServer_SendPacket_def HandleIncomingPacket.simps)
qed

section \<open>SPF calculator\<close>

text \<open>
  A \<^verbatim>\<open>float64\<close> distance: a finite cost or \<^verbatim>\<open>math.Inf(1)\<close>. Edge costs are finite, so
  every sum the calculator forms is finite and only the initial distances are infinite.
\<close>

datatype dval = Fin real | Infinite

text \<open>Reading a Go map at a key it does not hold yields the zero value.\<close>

definition float_at :: "(string \<times> dval) list \<Rightarrow> string \<Rightarrow> dval" where
  "float_at m k = (case map_of m k of None \<Rightarrow> Fin 0 | Some d \<Rightarrow> d)"

definition string_at :: "(string \<times> string) list \<Rightarrow> string \<Rightarrow> string" where
  "string_at m k = (case map_of m k of None \<Rightarrow> [] | Some v \<Rightarrow> v)"

definition bool_at :: "(string \<times> bool) list \<Rightarrow> string \<Rightarrow> bool" where
  "bool_at m k = (case map_of m k of None \<Rightarrow> False | Some b \<Rightarrow> b)"

text \<open>\<open>less_dval c d\<close> is \<^verbatim>\<open>c < d\<close> and \<open>greater_dval c d\<close> is \<^verbatim>\<open>c > d\<close> for a finite \<open>c\<close>.\<close>

fun less_dval :: "real \<Rightarrow> dval \<Rightarrow> bool" where
  "less_dval c (Fin r) = (c < r)"
| "less_dval c Infinite = True"

fun greater_dval :: "real \<Rightarrow> dval \<Rightarrow> bool" where
  "greater_dval c (Fin r) = (c > r)"
| "greater_dval c Infinite = False"

text \<open>
  The priority queue is the library's binary heap under the comparator on
  \<^verbatim>\<open>priority\<close>. Its contract is modelled: \<open>Enqueue\<close> adds an item and \<open>Dequeue\<close> removes an
  item of least priority. Which of several least items the heap hands out is left to
  \<open>tie\<close>, a choice that may depend on the whole content of the queue.
\<close>

type_synonym Item = "string \<times> real"

definition Enqueue :: "Item \<Rightarrow> Item list \<Rightarrow> Item list" where
  "Enqueue item q = q @ [item]"

definition least_items :: "Item list \<Rightarrow> Item list" where
  "least_items q = filter (\<lambda>item. \<forall>other \<in> set q. snd item \<le> snd other) q"

definition Dequeue :: "(Item list \<Rightarrow> nat) \<Rightarrow> Item list \<Rightarrow> (Item \<times> Item list) option" where
  "Dequeue tie q =
     (if q = [] then None
      else (let item = least_items q ! (tie q mod length (least_items q))
            in Some (item, remove1 item q)))"

text \<open>
  The locals of \<^verbatim>\<open>ComputeRoutes\<close>. The earlier calculator keeps \<open>visited\<close> and no
  \<open>previous\<close>; the later one keeps \<open>previous\<close> and no \<open>visited\<close>.
\<close>

record spf_state =
  distance :: "(string \<times> dval) list"
  nextHop :: "(string \<times> string) list"
  previous :: "(string \<times> string) list"
  visited :: "(string \<times> bool) list"
  pq :: "Item list"
  neighborCache :: "(string \<times> (string \<times> real) list) list"

definition init_state :: "string \<Rightarrow> Topology \<Rightarrow> spf_state" where
  "init_state sourceNodeID t =
     \<lparr>distance =
        AList.update sourceNodeID (Fin 0)
          (fold (\<lambda>node distance. AList.update (ID node) Infinite distance)
             (GetAllNodes t) []),
      nextHop = [], previous = [], visited = [],
      pq = Enqueue (sourceNodeID, 0) [],
      neighborCache = []\<rparr>"

text \<open>The neighbours of the current node, through the cache.\<close>

definition cached_neighbors ::
  "Topology \<Rightarrow> string \<Rightarrow> spf_state \<Rightarrow> (string \<times> real) list \<times> spf_state" where
  "cached_neighbors t currentNodeID st =
     (case map_of (neighborCache st) currentNodeID of
        Some neighbors \<Rightarrow> (neighbors, st)
      | None \<Rightarrow>
          (let neighbors = GetNeighbors t currentNodeID
           in (neighbors,
               st\<lparr>neighborCache := AList.update currentNodeID neighbors (neighborCache st)\<rparr>)))"

subsection \<open>The calculator with lazy deletion\<close>

definition relax_edge :: "string \<Rightarrow> string \<Rightarrow> real \<Rightarrow> string \<times> real \<Rightarrow> spf_state \<Rightarrow> spf_state" where
  "relax_edge sourceNodeID currentNodeID currentCost = (\<lambda>(neighborID, linkCost) st.
     (let newCost = currentCost + linkCost in
      if less_dval newCost (float_at (distance st) neighborID) then
        st\<lparr>distance := AList.update neighborID (Fin newCost) (distance st),
           previous := AList.update neighborID currentNodeID (previous st),
           nextHop :=
             AList.update neighborID
               (if currentNodeID = sourceNodeID then neighborID
                else string_at (nextHop st) currentNodeID)
               (nextHop st),
           pq := Enqueue (neighborID, newCost) (pq st)\<rparr>
      else st))"

definition spf_step :: "(Item list \<Rightarrow> nat) \<Rightarrow> Topology \<Rightarrow> string \<Rightarrow> spf_state \<Rightarrow> spf_state" where
  "spf_step tie t sourceNodeID st =
     (case Dequeue tie (pq st) of
        None \<Rightarrow> st
      | Some ((currentNodeID, currentCost), rest) \<Rightarrow>
          (let st1 = st\<lparr>pq := rest\<rparr> in
           if greater_dval currentCost (float_at (distance st1) currentNodeID) then st1
           else
             (let (neighbors, st2) = cached_neighbors t currentNodeID st1
              in fold (relax_edge sourceNodeID currentNodeID currentCost) neighbors st2)))"

text \<open>
  The walk back along \<open>previous\<close> from a destination; \<open>None\<close> stands for a walk that
  never ends.
\<close>

partial_function (option) trace_back ::
  "string \<Rightarrow> (string \<times> string) list \<Rightarrow> string \<Rightarrow> string list \<Rightarrow> string list option" where
  "trace_back sourceNodeID prev node path =
     (if node = [] then Some path
      else (let path1 = path @ [node] in
            if node = sourceNodeID then Some path1
            else trace_back sourceNodeID prev (string_at prev node) path1))"

declare trace_back.simps [code]

definition AddRoute :: "Route \<Rightarrow> (string \<times> Route) list \<Rightarrow> (string \<times> Route) list" where
  "AddRoute route table = AList.update (rt_Destination route) route table"

definition collect_route ::
  "string \<Rightarrow> spf_state \<Rightarrow> string \<times> dval \<Rightarrow> (string \<times> Route) list option
     \<Rightarrow> (string \<times> Route) list option" where
  "collect_route sourceNodeID st = (\<lambda>(destNodeID, dist) acc.
     (case acc of
        None \<Rightarrow> None
      | Some routeTable \<Rightarrow>
          if destNodeID = sourceNodeID then Some routeTable
          else
            (case dist of
               Infinite \<Rightarrow> Some routeTable
             | Fin cost \<Rightarrow>
                 (case trace_back sourceNodeID (previous st) destNodeID [] of
                    None \<Rightarrow> None
                  | Some path \<Rightarrow>
                      Some (AddRoute
                        \<lparr>rt_Destination = destNodeID,
                         rt_NextHop = string_at (nextHop st) destNodeID,
                         rt_Cost = cost, Path = rev path\<rparr> routeTable)))))"

text \<open>
  \<^verbatim>\<open>ComputeRoutes\<close> of the current calculator. The result is \<open>None\<close> when the main
  loop or a walk back does not end; the source returns no error of its own.
\<close>

definition ComputeRoutes ::
  "(Item list \<Rightarrow> nat) \<Rightarrow> string \<Rightarrow> Topology \<Rightarrow> (string \<times> Route) list option" where
  "ComputeRoutes tie sourceNodeID t =
     (case while_option (\<lambda>st. pq st \<noteq> []) (spf_step tie t sourceNodeID)
             (init_state sourceNodeID t) of
        None \<Rightarrow> None
      | Some st \<Rightarrow> fold (collect_route sourceNodeID st) (distance st) (Some []))"

subsection \<open>The earlier calculator with a visited set\<close>

definition relax_edge_visited ::
  "string \<Rightarrow> string \<Rightarrow> real \<Rightarrow> string \<times> real \<Rightarrow> spf_state \<Rightarrow> spf_state" where
  "relax_edge_visited sourceNodeID currentNodeID currentCost = (\<lambda>(neighborID, linkCost) st.
     (let newCost = currentCost + linkCost in
      if less_dval newCost (float_at (distance st) neighborID) then
        st\<lparr>distance := AList.update neighborID (Fin newCost) (distance st),
           nextHop :=
             AList.update neighborID
               (if currentNodeID = sourceNodeID then neighborID
                else string_at (nextHop st) currentNodeID)
               (nextHop st),
           pq := Enqueue (neighborID, newCost) (pq st)\<rparr>
      else st))"

definition spf_step_visited ::
  "(Item list \<Rightarrow> nat) \<Rightarrow> Topology \<Rightarrow> string \<Rightarrow> spf_state \<Rightarrow> spf_state" where
  "spf_step_visited tie t sourceNodeID st =
     (case Dequeue tie (pq st) of
        None \<Rightarrow> st
      | Some ((currentNodeID, currentCost), rest) \<Rightarrow>
          (let st1 = st\<lparr>pq := rest\<rparr> in
           if bool_at (visited st1) currentNodeID then st1
           else
             (let st2 = st1\<lparr>visited := AList.update currentNodeID True (visited st1)\<rparr>;
                  (neighbors, st3) = cached_neighbors t currentNodeID st2
              in fold (relax_edge_visited sourceNodeID currentNodeID currentCost) neighbors st3)))"

definition collect_route_visited ::
  "string \<Rightarrow> spf_state \<Rightarrow> string \<times> dval \<Rightarrow> (string \<times> Route) list \<Rightarrow> (string \<times> Route) list" where
  "collect_route_visited sourceNodeID st = (\<lambda>(destNodeID, dist) routeTable.
     if destNodeID = sourceNodeID then routeTable
     else
       (case dist of
          Infinite \<Rightarrow> routeTable
        | Fin cost \<Rightarrow>
            AddRoute
              \<lparr>rt_Destination = destNodeID,
               rt_NextHop = string_at (nextHop st) destNodeID,
               rt_Cost = cost, Path = []\<rparr> routeTable))"

definition ComputeRoutes_visited ::
  "(Item list \<Rightarrow> nat) \<Rightarrow> string \<Rightarrow> Topology \<Rightarrow> (string \<times> Route) list option" where
  "ComputeRoutes_visited tie sourceNodeID t =
     (case while_option (\<lambda>st. pq st \<noteq> []) (spf_step_visited tie t sourceNodeID)
             (init_state sourceNodeID t) of
        None \<Rightarrow> None
      | Some st \<Rightarrow> Some (fold (collect_route_visited sourceNodeID st) (distance st) []))"

subsection \<open>Walks through the known nodes\<close>

text \<open>
  The graph the calculators see: \<open>edge t u v\<close> is the cost at which \<^verbatim>\<open>GetNeighbors(u)\<close>
  lists \<open>v\<close>, and the known nodes are the nodes with a \<^verbatim>\<open>NodeInfo\<close> together with the
  source, which are the keys of the initial \<open>distance\<close> map.
\<close>

definition edge :: "Topology \<Rightarrow> string \<Rightarrow> string \<Rightarrow> real option" where
  "edge t u v = map_of (GetNeighbors t u) v"

definition known :: "Topology \<Rightarrow> string \<Rightarrow> string set" where
  "known t src = insert src (set (map ID (GetAllNodes t)))"

definition costs_nonneg :: "Topology \<Rightarrow> bool" where
  "costs_nonneg t = (\<forall>(u, neighbors) \<in> set (edges t). \<forall>(v, c) \<in> set neighbors. 0 \<le> c)"

text \<open>
  \<open>walk_cost t u vs\<close> is the cost of the walk that starts at \<open>u\<close> and visits \<open>vs\<close> in
  order, if every step is an edge.
\<close>

fun walk_cost :: "Topology \<Rightarrow> string \<Rightarrow> string list \<Rightarrow> real option" where
  "walk_cost t u [] = Some 0"
| "walk_cost t u (v # vs) =
     (case edge t u v of
        None \<Rightarrow> None
      | Some c \<Rightarrow> (case walk_cost t v vs of None \<Rightarrow> None | Some r \<Rightarrow> Some (c + r)))"

definition walk :: "Topology \<Rightarrow> string set \<Rightarrow> string \<Rightarrow> string list \<Rightarrow> string \<Rightarrow> real \<Rightarrow> bool" where
  "walk t K u vs v c \<longleftrightarrow> set vs \<subseteq> K \<and> last (u # vs) = v \<and> walk_cost t u vs = Some c"

lemma set_fold_update_subset:
  "set (fold (\<lambda>(k, v) acc. AList.update k v acc) xs acc) \<subseteq> set xs \<union> set acc"
proof (induction xs arbitrary: acc)
  case Nil
  then show ?case by simp
next
  case (Cons x xs)
  obtain k v where x: "x = (k, v)" by (cases x)
  have "set (AList.update k v acc) \<subseteq> insert (k, v) (set acc)"
    by (induction acc) auto
  with Cons.IH [of "AList.update k v acc"] show ?case
    by (auto simp: x)
qed

lemma edge_in_edges:
  assumes "edge t u v = Some c"
  shows "\<exists>m. (u, m) \<in> set (edges t) \<and> (v, c) \<in> set m"
proof -
  from assms have "(v, c) \<in> set (GetNeighbors t u)"
    by (simp add: edge_def map_of_SomeD)
  then have in_m: "(v, c) \<in> set (case map_of (edges t) u of None \<Rightarrow> [] | Some m \<Rightarrow> m)"
    unfolding GetNeighbors_def using set_fold_update_subset by fastforce
  then obtain m where "map_of (edges t) u = Some m" "(v, c) \<in> set m"
    by (cases "map_of (edges t) u") auto
  then show ?thesis
    by (auto dest: map_of_SomeD)
qed

lemma edge_nonneg: "costs_nonneg t \<Longrightarrow> edge t u v = Some c \<Longrightarrow> 0 \<le> c"
  by (fastforce simp: costs_nonneg_def dest: edge_in_edges)

lemma walk_Nil: "walk t K u [] v c \<longleftrightarrow> v = u \<and> c = 0"
  by (auto simp: walk_def)

lemma walk_cons:
  "edge t u w = Some e \<Longrightarrow> w \<in> K \<Longrightarrow> walk t K w vs v c \<Longrightarrow> walk t K u (w # vs) v (e + c)"
  by (auto simp: walk_def)

lemma walk_cost_snoc:
  "walk_cost t u vs = Some c \<Longrightarrow> edge t (last (u # vs)) w = Some e \<Longrightarrow>
   walk_cost t u (vs @ [w]) = Some (c + e)"
  by (induction vs arbitrary: u c) (auto split: option.splits)

lemma walk_snoc:
  "walk t K u vs v c \<Longrightarrow> edge t v w = Some e \<Longrightarrow> w \<in> K \<Longrightarrow> walk t K u (vs @ [w]) w (c + e)"
  unfolding walk_def using walk_cost_snoc by auto

lemma walk_cost_nonneg:
  "costs_nonneg t \<Longrightarrow> walk_cost t u vs = Some c \<Longrightarrow> 0 \<le> c"
proof (induction vs arbitrary: u c)
  case Nil
  then show ?case by simp
next
  case (Cons v vs)
  then obtain e r where "edge t u v = Some e" "walk_cost t v vs = Some r" "c = e + r"
    by (auto split: option.splits)
  with Cons show ?case
    using edge_nonneg [of t u v e] by fastforce
qed

lemma walk_nonneg: "costs_nonneg t \<Longrightarrow> walk t K u vs v c \<Longrightarrow> 0 \<le> c"
  unfolding walk_def using walk_cost_nonneg by blast


text \<open>A walk from inside a set to outside it crosses the border at some edge.\<close>

lemma walk_leaves:
  assumes "walk t K u vs v c" and "u \<in> S" and "v \<notin> S"
  shows "\<exists>pre x y e post c1 c2.
           walk t K u pre x c1 \<and> x \<in> S \<and> edge t x y = Some e \<and> y \<notin> S \<and> y \<in> K \<and>
           walk t K y post v c2 \<and> c = c1 + e + c2"
  using assms
proof (induction vs arbitrary: u c)
  case Nil
  then show ?case by (simp add: walk_Nil)
next
  case (Cons w ws)
  from Cons.prems(1) obtain e r where
    e: "edge t u w = Some e" and r: "walk_cost t w ws = Some r" and c: "c = e + r"
    and wK: "w \<in> K" and wsK: "set ws \<subseteq> K" and lst: "last (w # ws) = v"
    by (auto simp: walk_def split: option.splits)
  have rest: "walk t K w ws v r"
    using r wsK lst by (simp add: walk_def)
  show ?case
  proof (cases "w \<in> S")
    case False
    have "walk t K u [] u 0" by (simp add: walk_Nil)
    with Cons.prems(2) e False wK rest c show ?thesis
      by (intro exI [of _ "[]"] exI [of _ u] exI [of _ w] exI [of _ e] exI [of _ ws]
          exI [of _ 0] exI [of _ r]) simp
  next
    case True
    from Cons.IH [OF rest True Cons.prems(3)] obtain pre x y e' post c1 c2 where
      h: "walk t K w pre x c1" "x \<in> S" "edge t x y = Some e'" "y \<notin> S" "y \<in> K"
         "walk t K y post v c2" "r = c1 + e' + c2"
      by blast
    have "walk t K u (w # pre) x (e + c1)"
      using e wK h(1) by (rule walk_cons)
    with h c show ?thesis
      by (intro exI [of _ "w # pre"] exI [of _ x] exI [of _ y] exI [of _ e'] exI [of _ post]
          exI [of _ "e + c1"] exI [of _ c2]) simp
  qed
qed

subsection \<open>The invariant of the main loop\<close>

definition dmap :: "spf_state \<Rightarrow> string \<Rightarrow> dval option" where
  "dmap st = map_of (distance st)"

definition hop :: "spf_state \<Rightarrow> string \<Rightarrow> string option" where
  "hop st = map_of (nextHop st)"

definition all_edges :: "Topology \<Rightarrow> string \<Rightarrow> (string \<times> real) set" where
  "all_edges t v = {(w, e). edge t v w = Some e}"

text \<open>
  \<open>S\<close> is the set of settled nodes and \<open>E v\<close> the out-edges of a settled \<open>v\<close> that have
  been relaxed.
\<close>

definition spf_inv ::
  "Topology \<Rightarrow> string \<Rightarrow> spf_state \<Rightarrow> string set \<Rightarrow> (string \<Rightarrow> (string \<times> real) set) \<Rightarrow> bool" where
  "spf_inv t src st S E \<longleftrightarrow>
     dom (dmap st) = known t src \<and>
     dmap st src = Some (Fin 0) \<and>
     distinct (pq st) \<and>
     (\<forall>v r. dmap st v = Some (Fin r) \<longrightarrow> (\<exists>vs. walk t (known t src) src vs v r)) \<and>
     (\<forall>v p. (v, p) \<in> set (pq st) \<longrightarrow> (\<exists>r. dmap st v = Some (Fin r) \<and> r \<le> p)) \<and>
     (\<forall>v r. dmap st v = Some (Fin r) \<longrightarrow> v \<in> S \<or> (v, r) \<in> set (pq st)) \<and>
     (\<forall>v \<in> S. \<exists>r. dmap st v = Some (Fin r) \<and>
        (\<forall>vs c. walk t (known t src) src vs v c \<longrightarrow> r \<le> c) \<and>
        (\<forall>p. (v, p) \<in> set (pq st) \<longrightarrow> r < p) \<and>
        (\<forall>w e. (w, e) \<in> E v \<longrightarrow> w \<in> known t src \<longrightarrow>
           (\<exists>r'. dmap st w = Some (Fin r') \<and> r' \<le> r + e))) \<and>
     (\<forall>v r. dmap st v = Some (Fin r) \<longrightarrow> v \<noteq> src \<longrightarrow>
        (\<exists>h e ws. hop st v = Some h \<and> edge t src h = Some e \<and> h \<noteq> src \<and>
           h \<in> known t src \<and> walk t (known t src - {src}) h ws v (r - e)))"

lemma spf_invI:
  assumes "dom (dmap st) = known t src"
    and "dmap st src = Some (Fin 0)"
    and "distinct (pq st)"
    and "\<And>v r. dmap st v = Some (Fin r) \<Longrightarrow> \<exists>vs. walk t (known t src) src vs v r"
    and "\<And>v p. (v, p) \<in> set (pq st) \<Longrightarrow> \<exists>r. dmap st v = Some (Fin r) \<and> r \<le> p"
    and "\<And>v r. dmap st v = Some (Fin r) \<Longrightarrow> v \<in> S \<or> (v, r) \<in> set (pq st)"
    and "\<And>v. v \<in> S \<Longrightarrow> \<exists>r. dmap st v = Some (Fin r) \<and>
        (\<forall>vs c. walk t (known t src) src vs v c \<longrightarrow> r \<le> c) \<and>
        (\<forall>p. (v, p) \<in> set (pq st) \<longrightarrow> r < p) \<and>
        (\<forall>w e. (w, e) \<in> E v \<longrightarrow> w \<in> known t src \<longrightarrow>
           (\<exists>r'. dmap st w = Some (Fin r') \<and> r' \<le> r + e))"
    and "\<And>v r. dmap st v = Some (Fin r) \<Longrightarrow> v \<noteq> src \<Longrightarrow>
        \<exists>h e ws. hop st v = Some h \<and> edge t src h = Some e \<and> h \<noteq> src \<and>
           h \<in> known t src \<and> walk t (known t src - {src}) h ws v (r - e)"
  shows "spf_inv t src st S E"
  unfolding spf_inv_def using assms by blast

lemma inv_dom: "spf_inv t src st S E \<Longrightarrow> dom (dmap st) = known t src"
  by (simp add: spf_inv_def)

lemma inv_src: "spf_inv t src st S E \<Longrightarrow> dmap st src = Some (Fin 0)"
  by (simp add: spf_inv_def)

lemma inv_distinct: "spf_inv t src st S E \<Longrightarrow> distinct (pq st)"
  by (simp add: spf_inv_def)

lemma inv_walk:
  "spf_inv t src st S E \<Longrightarrow> dmap st v = Some (Fin r) \<Longrightarrow> \<exists>vs. walk t (known t src) src vs v r"
  unfolding spf_inv_def by blast

lemma inv_queue:
  "spf_inv t src st S E \<Longrightarrow> (v, p) \<in> set (pq st) \<Longrightarrow> \<exists>r. dmap st v = Some (Fin r) \<and> r \<le> p"
  unfolding spf_inv_def by blast

lemma inv_pending:
  "spf_inv t src st S E \<Longrightarrow> dmap st v = Some (Fin r) \<Longrightarrow> v \<in> S \<or> (v, r) \<in> set (pq st)"
  unfolding spf_inv_def by blast

lemma inv_settled:
  "spf_inv t src st S E \<Longrightarrow> v \<in> S \<Longrightarrow>
   \<exists>r. dmap st v = Some (Fin r) \<and>
        (\<forall>vs c. walk t (known t src) src vs v c \<longrightarrow> r \<le> c) \<and>
        (\<forall>p. (v, p) \<in> set (pq st) \<longrightarrow> r < p) \<and>
        (\<forall>w e. (w, e) \<in> E v \<longrightarrow> w \<in> known t src \<longrightarrow>
           (\<exists>r'. dmap st w = Some (Fin r') \<and> r' \<le> r + e))"
  unfolding spf_inv_def by blast

lemma inv_hop:
  "spf_inv t src st S E \<Longrightarrow> dmap st v = Some (Fin r) \<Longrightarrow> v \<noteq> src \<Longrightarrow>
   \<exists>h e ws. hop st v = Some h \<and> edge t src h = Some e \<and> h \<noteq> src \<and>
           h \<in> known t src \<and> walk t (known t src - {src}) h ws v (r - e)"
  unfolding spf_inv_def by blast

lemma inv_least:
  "spf_inv t src st S E \<Longrightarrow> v \<in> S \<Longrightarrow> dmap st v = Some (Fin r) \<Longrightarrow>
   walk t (known t src) src vs v c \<Longrightarrow> r \<le> c"
  by (fastforce dest: inv_settled)

lemma inv_stale:
  "spf_inv t src st S E \<Longrightarrow> v \<in> S \<Longrightarrow> dmap st v = Some (Fin r) \<Longrightarrow>
   (v, p) \<in> set (pq st) \<Longrightarrow> r < p"
  by (fastforce dest: inv_settled)

lemma inv_relaxed:
  "spf_inv t src st S E \<Longrightarrow> v \<in> S \<Longrightarrow> dmap st v = Some (Fin r) \<Longrightarrow>
   (w, e) \<in> E v \<Longrightarrow> w \<in> known t src \<Longrightarrow> \<exists>r'. dmap st w = Some (Fin r') \<and> r' \<le> r + e"
  by (fastforce dest: inv_settled)

lemma inv_finite_nonneg:
  "spf_inv t src st S E \<Longrightarrow> costs_nonneg t \<Longrightarrow> dmap st v = Some (Fin r) \<Longrightarrow> 0 \<le> r"
  using inv_walk walk_nonneg by blast

text \<open>Under the invariant the settled nodes can be read off the state.\<close>

definition settled :: "spf_state \<Rightarrow> string set" where
  "settled st = {v. \<exists>r. dmap st v = Some (Fin r) \<and> (v, r) \<notin> set (pq st)}"

lemma inv_settled_eq:
  assumes "spf_inv t src st S E"
  shows "S = settled st"
proof (intro set_eqI iffI)
  fix v assume "v \<in> S"
  with inv_settled [OF assms] obtain r where
    "dmap st v = Some (Fin r)" "\<forall>p. (v, p) \<in> set (pq st) \<longrightarrow> r < p"
    by blast
  then show "v \<in> settled st"
    unfolding settled_def by fastforce
next
  fix v assume "v \<in> settled st"
  then obtain r where "dmap st v = Some (Fin r)" "(v, r) \<notin> set (pq st)"
    unfolding settled_def by blast
  with inv_pending [OF assms] show "v \<in> S"
    by blast
qed

subsection \<open>What one relaxation does\<close>

lemma relax_edge_keeps:
  "\<not> less_dval (p + e) (float_at (distance st) w) \<Longrightarrow> relax_edge src u p (w, e) st = st"
  by (simp add: relax_edge_def)

lemma relax_edge_dist:
  "less_dval (p + e) (float_at (distance st) w) \<Longrightarrow>
   dmap (relax_edge src u p (w, e) st) = (dmap st)(w \<mapsto> Fin (p + e))"
  by (simp add: relax_edge_def dmap_def update_conv' Let_def)

lemma relax_edge_pq:
  "less_dval (p + e) (float_at (distance st) w) \<Longrightarrow>
   pq (relax_edge src u p (w, e) st) = pq st @ [(w, p + e)]"
  by (simp add: relax_edge_def Enqueue_def Let_def)

lemma relax_edge_hop:
  "less_dval (p + e) (float_at (distance st) w) \<Longrightarrow>
   hop (relax_edge src u p (w, e) st) =
     (hop st)(w \<mapsto> (if u = src then w else string_at (nextHop st) u))"
  by (simp add: relax_edge_def hop_def update_conv' Let_def)

lemma float_at_dist:
  "float_at (distance st) w = (case dmap st w of None \<Rightarrow> Fin 0 | Some d \<Rightarrow> d)"
  by (simp add: float_at_def dmap_def)


lemma spf_inv_relax_edge:
  assumes inv: "spf_inv t src st S E" and nn: "costs_nonneg t"
    and uS: "u \<in> S" and du: "dmap st u = Some (Fin p)" and e: "edge t u w = Some e"
  shows "spf_inv t src (relax_edge src u p (w, e) st) S (E(u := insert (w, e) (E u)))"
proof (cases "less_dval (p + e) (float_at (distance st) w)")
  case False
  then have same: "relax_edge src u p (w, e) st = st"
    by (rule relax_edge_keeps)
  have new_edge: "\<exists>r'. dmap st w = Some (Fin r') \<and> r' \<le> p + e" if "w \<in> known t src"
  proof -
    from that inv_dom [OF inv] obtain d where d: "dmap st w = Some d"
      by blast
    with False show ?thesis
      by (cases d) (simp_all add: float_at_dist)
  qed
  show ?thesis
    unfolding same
  proof (rule spf_invI)
    fix v assume vS: "v \<in> S"
    from inv_settled [OF inv vS] obtain r where r:
      "dmap st v = Some (Fin r)"
      "\<forall>vs c. walk t (known t src) src vs v c \<longrightarrow> r \<le> c"
      "\<forall>p. (v, p) \<in> set (pq st) \<longrightarrow> r < p"
      "\<forall>w e. (w, e) \<in> E v \<longrightarrow> w \<in> known t src \<longrightarrow> (\<exists>r'. dmap st w = Some (Fin r') \<and> r' \<le> r + e)"
      by blast
    have "\<forall>w' e'. (w', e') \<in> (E(u := insert (w, e) (E u))) v \<longrightarrow> w' \<in> known t src \<longrightarrow>
           (\<exists>r'. dmap st w' = Some (Fin r') \<and> r' \<le> r + e')"
    proof (intro allI impI)
      fix w' e' assume in_E: "(w', e') \<in> (E(u := insert (w, e) (E u))) v" and k: "w' \<in> known t src"
      show "\<exists>r'. dmap st w' = Some (Fin r') \<and> r' \<le> r + e'"
      proof (cases "v = u \<and> (w', e') = (w, e)")
        case True
        then have "r = p" using r(1) du by simp
        with True new_edge k show ?thesis by simp
      next
        case False
        with in_E have "(w', e') \<in> E v"
          by (auto split: if_splits)
        with r(4) k show ?thesis by blast
      qed
    qed
    with r show "\<exists>r. dmap st v = Some (Fin r) \<and>
        (\<forall>vs c. walk t (known t src) src vs v c \<longrightarrow> r \<le> c) \<and>
        (\<forall>p. (v, p) \<in> set (pq st) \<longrightarrow> r < p) \<and>
        (\<forall>w' e'. (w', e') \<in> (E(u := insert (w, e) (E u))) v \<longrightarrow> w' \<in> known t src \<longrightarrow>
           (\<exists>r'. dmap st w' = Some (Fin r') \<and> r' \<le> r + e'))"
      by blast
  qed (rule inv_dom [OF inv] inv_src [OF inv] inv_distinct [OF inv]
        | erule inv_walk [OF inv] inv_queue [OF inv] inv_pending [OF inv]
        | erule (1) inv_hop [OF inv])+
next
  case True
  let ?c = "p + e"
  let ?st = "relax_edge src u p (w, e) st"
  let ?K = "known t src"
  have D: "dmap ?st = (dmap st)(w \<mapsto> Fin ?c)"
    using True by (rule relax_edge_dist)
  have Q: "pq ?st = pq st @ [(w, ?c)]"
    using True by (rule relax_edge_pq)
  have H: "hop ?st = (hop st)(w \<mapsto> (if u = src then w else string_at (nextHop st) u))"
    using True by (rule relax_edge_hop)
  have p0: "0 \<le> p"
    using inv nn du by (rule inv_finite_nonneg)
  have e0: "0 \<le> e"
    using nn e by (rule edge_nonneg)
  have wK: "w \<in> ?K"
  proof (rule ccontr)
    assume "w \<notin> ?K"
    then have "dmap st w = None"
      using inv_dom [OF inv] by blast
    with True p0 e0 show False
      by (simp add: float_at_dist)
  qed
  have old: "dmap st w = Some Infinite \<or> (\<exists>r0. dmap st w = Some (Fin r0) \<and> ?c < r0)"
  proof -
    from wK inv_dom [OF inv] obtain d where d: "dmap st w = Some d" by blast
    with True show ?thesis
      by (cases d) (simp_all add: float_at_dist)
  qed
  have w_src: "w \<noteq> src"
    using old inv_src [OF inv] p0 e0 by auto
  obtain us where us: "walk t ?K src us u p"
    using inv_walk [OF inv du] by blast
  have to_w: "walk t ?K src (us @ [w]) w ?c"
    using us e wK by (rule walk_snoc)
  have wS: "w \<notin> S"
  proof
    assume "w \<in> S"
    from inv_settled [OF inv this] obtain r0 where
      "dmap st w = Some (Fin r0)" "\<forall>vs c. walk t ?K src vs w c \<longrightarrow> r0 \<le> c"
      by blast
    with to_w old show False by fastforce
  qed
  have no_entry: "(w, ?c) \<notin> set (pq st)"
  proof
    assume "(w, ?c) \<in> set (pq st)"
    from inv_queue [OF inv this] old show False by auto
  qed
  show ?thesis
  proof (rule spf_invI)
    show "dom (dmap ?st) = ?K"
      using inv_dom [OF inv] wK by (auto simp: D)
    show "dmap ?st src = Some (Fin 0)"
      using inv_src [OF inv] w_src by (simp add: D)
    show "distinct (pq ?st)"
      using inv_distinct [OF inv] no_entry by (simp add: Q)
  next
    fix v r assume v: "dmap ?st v = Some (Fin r)"
    show "\<exists>vs. walk t ?K src vs v r"
    proof (cases "v = w")
      case True
      with v have "r = ?c" by (simp add: D)
      with to_w True show ?thesis by blast
    next
      case False
      with v have "dmap st v = Some (Fin r)" by (simp add: D)
      then show ?thesis by (rule inv_walk [OF inv])
    qed
  next
    fix v q assume vq: "(v, q) \<in> set (pq ?st)"
    show "\<exists>r. dmap ?st v = Some (Fin r) \<and> r \<le> q"
    proof (cases "v = w")
      case True
      have "?c \<le> q"
      proof (cases "(v, q) \<in> set (pq st)")
        case True
        from inv_queue [OF inv this] \<open>v = w\<close> old show ?thesis by auto
      next
        case False
        with vq show ?thesis by (simp add: Q)
      qed
      with True show ?thesis by (simp add: D)
    next
      case False
      with vq have "(v, q) \<in> set (pq st)" by (simp add: Q)
      from inv_queue [OF inv this] False show ?thesis by (simp add: D)
    qed
  next
    fix v r assume v: "dmap ?st v = Some (Fin r)"
    show "v \<in> S \<or> (v, r) \<in> set (pq ?st)"
    proof (cases "v = w")
      case True
      with v show ?thesis by (simp add: D Q)
    next
      case False
      with v have "dmap st v = Some (Fin r)" by (simp add: D)
      from inv_pending [OF inv this] show ?thesis by (auto simp: Q)
    qed
  next
    fix v assume vS: "v \<in> S"
    then have vw: "v \<noteq> w" using wS by blast
    from inv_settled [OF inv vS] obtain r where r:
      "dmap st v = Some (Fin r)"
      "\<forall>vs c. walk t ?K src vs v c \<longrightarrow> r \<le> c"
      "\<forall>p. (v, p) \<in> set (pq st) \<longrightarrow> r < p"
      "\<forall>w e. (w, e) \<in> E v \<longrightarrow> w \<in> ?K \<longrightarrow> (\<exists>r'. dmap st w = Some (Fin r') \<and> r' \<le> r + e)"
      by blast
    have d': "dmap ?st v = Some (Fin r)"
      using r(1) vw by (simp add: D)
    have stale: "\<forall>q. (v, q) \<in> set (pq ?st) \<longrightarrow> r < q"
      using r(3) vw by (auto simp: Q)
    have relaxed: "\<forall>w' e'. (w', e') \<in> (E(u := insert (w, e) (E u))) v \<longrightarrow> w' \<in> ?K \<longrightarrow>
           (\<exists>r'. dmap ?st w' = Some (Fin r') \<and> r' \<le> r + e')"
    proof (intro allI impI)
      fix w' e' assume in_E: "(w', e') \<in> (E(u := insert (w, e) (E u))) v" and k: "w' \<in> ?K"
      show "\<exists>r'. dmap ?st w' = Some (Fin r') \<and> r' \<le> r + e'"
      proof (cases "v = u \<and> (w', e') = (w, e)")
        case True
        then have "r = p" using r(1) du by simp
        with True show ?thesis by (simp add: D)
      next
        case False
        with in_E have "(w', e') \<in> E v"
          by (auto split: if_splits)
        with r(4) k obtain r' where r': "dmap st w' = Some (Fin r')" "r' \<le> r + e'"
          by blast
        show ?thesis
        proof (cases "w' = w")
          case True
          with r' old have "?c < r'" by auto
          with r'(2) True show ?thesis by (simp add: D)
        next
          case False
          with r' show ?thesis by (simp add: D)
        qed
      qed
    qed
    from d' r(2) stale relaxed
    show "\<exists>r. dmap ?st v = Some (Fin r) \<and>
        (\<forall>vs c. walk t ?K src vs v c \<longrightarrow> r \<le> c) \<and>
        (\<forall>p. (v, p) \<in> set (pq ?st) \<longrightarrow> r < p) \<and>
        (\<forall>w' e'. (w', e') \<in> (E(u := insert (w, e) (E u))) v \<longrightarrow> w' \<in> ?K \<longrightarrow>
           (\<exists>r'. dmap ?st w' = Some (Fin r') \<and> r' \<le> r + e'))"
      by blast
  next
    fix v r assume v: "dmap ?st v = Some (Fin r)" and vs: "v \<noteq> src"
    show "\<exists>h e ws. hop ?st v = Some h \<and> edge t src h = Some e \<and> h \<noteq> src \<and>
           h \<in> ?K \<and> walk t (?K - {src}) h ws v (r - e)"
    proof (cases "v = w")
      case False
      with v have "dmap st v = Some (Fin r)" by (simp add: D)
      from inv_hop [OF inv this vs] False show ?thesis by (simp add: H)
    next
      case True
      with v have rc: "r = ?c" by (simp add: D)
      show ?thesis
      proof (cases "u = src")
        case True
        then have p: "p = 0" using du inv_src [OF inv] by simp
        have hw: "hop ?st w = Some w"
          unfolding H using True by simp
        have "walk t (?K - {src}) w [] w (r - e)"
          using rc p by (simp add: walk_Nil)
        with hw e w_src wK show ?thesis
          unfolding \<open>v = w\<close> True by blast
      next
        case False
        from inv_hop [OF inv du False] obtain h e' ws where h:
          "hop st u = Some h" "edge t src h = Some e'" "h \<noteq> src" "h \<in> ?K"
          "walk t (?K - {src}) h ws u (p - e')"
          by blast
        have "string_at (nextHop st) u = h"
          using h(1) by (simp add: string_at_def hop_def)
        moreover have "walk t (?K - {src}) h (ws @ [w]) w (p - e' + e)"
          using h(5) e by (rule walk_snoc) (use wK w_src in simp)
        then have "walk t (?K - {src}) h (ws @ [w]) w (?c - e')"
          by (simp add: algebra_simps)
        ultimately have "hop ?st w = Some h" "walk t (?K - {src}) h (ws @ [w]) w (r - e')"
          unfolding H using False rc by simp_all
        with h(2,3,4) show ?thesis
          unfolding \<open>v = w\<close> by blast
      qed
    qed
  qed
qed

lemma spf_inv_weaken:
  assumes "spf_inv t src st S E" and "\<And>v. E' v \<subseteq> E v"
  shows "spf_inv t src st S E'"
proof (rule spf_invI)
  fix v assume "v \<in> S"
  from inv_settled [OF assms(1) this] obtain r where r:
    "dmap st v = Some (Fin r)"
    "\<forall>vs c. walk t (known t src) src vs v c \<longrightarrow> r \<le> c"
    "\<forall>p. (v, p) \<in> set (pq st) \<longrightarrow> r < p"
    "\<forall>w e. (w, e) \<in> E v \<longrightarrow> w \<in> known t src \<longrightarrow> (\<exists>r'. dmap st w = Some (Fin r') \<and> r' \<le> r + e)"
    by blast
  from r(4) assms(2) [of v]
  have "\<forall>w e. (w, e) \<in> E' v \<longrightarrow> w \<in> known t src \<longrightarrow> (\<exists>r'. dmap st w = Some (Fin r') \<and> r' \<le> r + e)"
    by blast
  with r(1,2,3) show "\<exists>r. dmap st v = Some (Fin r) \<and>
        (\<forall>vs c. walk t (known t src) src vs v c \<longrightarrow> r \<le> c) \<and>
        (\<forall>p. (v, p) \<in> set (pq st) \<longrightarrow> r < p) \<and>
        (\<forall>w e. (w, e) \<in> E' v \<longrightarrow> w \<in> known t src \<longrightarrow>
           (\<exists>r'. dmap st w = Some (Fin r') \<and> r' \<le> r + e))"
    by blast
qed (rule inv_dom [OF assms(1)] inv_src [OF assms(1)] inv_distinct [OF assms(1)]
      | erule inv_walk [OF assms(1)] inv_queue [OF assms(1)] inv_pending [OF assms(1)]
      | erule (1) inv_hop [OF assms(1)])+

text \<open>The distance of a settled node is the same in every state that satisfies the invariant.\<close>

lemma inv_settled_unique:
  assumes "spf_inv t src st S E" and "spf_inv t src st' S' E'" and "v \<in> S" and "v \<in> S'"
  shows "dmap st' v = dmap st v"
proof -
  from inv_settled [OF assms(1,3)] obtain r where r:
    "dmap st v = Some (Fin r)" "\<forall>vs c. walk t (known t src) src vs v c \<longrightarrow> r \<le> c"
    by blast
  from inv_settled [OF assms(2,4)] obtain r' where r':
    "dmap st' v = Some (Fin r')" "\<forall>vs c. walk t (known t src) src vs v c \<longrightarrow> r' \<le> c"
    by blast
  from inv_walk [OF assms(1) r(1)] r'(2) have "r' \<le> r" by blast
  moreover from inv_walk [OF assms(2) r'(1)] r(2) have "r \<le> r'" by blast
  ultimately show ?thesis using r(1) r'(1) by simp
qed

lemma spf_inv_relax_all:
  assumes "spf_inv t src st S E" and "costs_nonneg t" and "u \<in> S"
    and "dmap st u = Some (Fin p)" and "\<And>w e. (w, e) \<in> set xs \<Longrightarrow> edge t u w = Some e"
  shows "spf_inv t src (fold (relax_edge src u p) xs st) S (E(u := E u \<union> set xs))"
  using assms
proof (induction xs arbitrary: st E)
  case Nil
  then show ?case by simp
next
  case (Cons x xs)
  obtain w e where x: "x = (w, e)" by (cases x)
  let ?st = "relax_edge src u p (w, e) st"
  let ?E = "E(u := insert (w, e) (E u))"
  have e: "edge t u w = Some e"
    using Cons.prems(5) [of w e] by (simp add: x)
  have step: "spf_inv t src ?st S ?E"
    using Cons.prems(1,2,3,4) e by (rule spf_inv_relax_edge)
  have du: "dmap ?st u = Some (Fin p)"
    using inv_settled_unique [OF Cons.prems(1) step Cons.prems(3) Cons.prems(3)] Cons.prems(4)
    by simp
  have "spf_inv t src (fold (relax_edge src u p) xs ?st) S (?E(u := ?E u \<union> set xs))"
    using step Cons.prems(2,3) du
  proof (rule Cons.IH)
    fix w' e' assume "(w', e') \<in> set xs"
    then show "edge t u w' = Some e'"
      using Cons.prems(5) [of w' e'] by simp
  qed
  moreover have "?E(u := ?E u \<union> set xs) = E(u := E u \<union> set (x # xs))"
    by (auto simp: x)
  ultimately have "spf_inv t src (fold (relax_edge src u p) xs ?st) S
      (E(u := E u \<union> set (x # xs)))"
    by (simp only:)
  moreover have "fold (relax_edge src u p) (x # xs) st = fold (relax_edge src u p) xs ?st"
    by (simp add: x)
  ultimately show ?case
    by (simp only:)
qed

lemma spf_inv_drop_stale:
  assumes inv: "spf_inv t src st S E" and "(u, q) \<in> set (pq st)"
    and "dmap st u = Some (Fin r)" and "r < q"
  shows "spf_inv t src (st\<lparr>pq := remove1 (u, q) (pq st)\<rparr>) S E"
proof (rule spf_invI)
  let ?st = "st\<lparr>pq := remove1 (u, q) (pq st)\<rparr>"
  have D: "dmap ?st = dmap st" and H: "hop ?st = hop st"
    by (simp_all add: dmap_def hop_def)
  have P: "pq ?st = remove1 (u, q) (pq st)"
    by simp
  have Q: "set (remove1 (u, q) (pq st)) = set (pq st) - {(u, q)}"
    using inv_distinct [OF inv] by simp
  show "dom (dmap ?st) = known t src" "dmap ?st src = Some (Fin 0)"
    using inv_dom [OF inv] inv_src [OF inv] by (simp_all add: D)
  show "distinct (pq ?st)"
    using inv_distinct [OF inv] by simp
  show "\<exists>vs. walk t (known t src) src vs v r'" if "dmap ?st v = Some (Fin r')" for v r'
    using that inv_walk [OF inv] by (simp add: D)
  show "\<exists>r'. dmap ?st v = Some (Fin r') \<and> r' \<le> p" if "(v, p) \<in> set (pq ?st)" for v p
    using that inv_queue [OF inv, of v p] by (simp add: D P Q del: set_remove1_eq)
  show "v \<in> S \<or> (v, r') \<in> set (pq ?st)" if "dmap ?st v = Some (Fin r')" for v r'
  proof -
    from that have d: "dmap st v = Some (Fin r')" by (simp add: D)
    have "(v, r') \<noteq> (u, q)"
      using d assms(3,4) by auto
    with inv_pending [OF inv d] show ?thesis
      unfolding P Q by blast
  qed
  show "\<exists>r. dmap ?st v = Some (Fin r) \<and>
        (\<forall>vs c. walk t (known t src) src vs v c \<longrightarrow> r \<le> c) \<and>
        (\<forall>p. (v, p) \<in> set (pq ?st) \<longrightarrow> r < p) \<and>
        (\<forall>w e. (w, e) \<in> E v \<longrightarrow> w \<in> known t src \<longrightarrow>
           (\<exists>r'. dmap ?st w = Some (Fin r') \<and> r' \<le> r + e))" if "v \<in> S" for v
    using inv_settled [OF inv that] unfolding D P Q by blast
  show "\<exists>h e ws. hop ?st v = Some h \<and> edge t src h = Some e \<and> h \<noteq> src \<and>
           h \<in> known t src \<and> walk t (known t src - {src}) h ws v (r' - e)"
    if "dmap ?st v = Some (Fin r')" "v \<noteq> src" for v r'
    using that inv_hop [OF inv, of v r'] by (simp add: D H)
qed

text \<open>
  The step of Dijkstra's algorithm: a node that is not settled and whose current distance
  is least in the queue has its final distance.
\<close>

lemma least_entry_is_final:
  assumes inv: "spf_inv t src st S (all_edges t)" and nn: "costs_nonneg t"
    and min: "\<And>v q. (v, q) \<in> set (pq st) \<Longrightarrow> p \<le> q"
    and uS: "u \<notin> S" and walk: "walk t (known t src) src vs u c"
  shows "p \<le> c"
proof (cases "src \<in> S")
  case False
  with inv_pending [OF inv inv_src [OF inv]] have "(src, 0) \<in> set (pq st)"
    by blast
  from min [OF this] walk_nonneg [OF nn walk] show ?thesis
    by simp
next
  case True
  from walk_leaves [OF walk True uS] obtain pre x y e post c1 c2 where
    h: "walk t (known t src) src pre x c1" "x \<in> S" "edge t x y = Some e" "y \<notin> S"
       "y \<in> known t src" "walk t (known t src) y post u c2" "c = c1 + e + c2"
    by blast
  from inv_settled [OF inv h(2)] obtain rx where rx:
    "dmap st x = Some (Fin rx)" "\<forall>vs c. walk t (known t src) src vs x c \<longrightarrow> rx \<le> c"
    "\<forall>w e. (w, e) \<in> all_edges t x \<longrightarrow> w \<in> known t src \<longrightarrow>
       (\<exists>r'. dmap st w = Some (Fin r') \<and> r' \<le> rx + e)"
    by blast
  have "(y, e) \<in> all_edges t x"
    using h(3) by (simp add: all_edges_def)
  with rx(3) h(5) obtain ry where ry: "dmap st y = Some (Fin ry)" "ry \<le> rx + e"
    by blast
  from inv_pending [OF inv ry(1)] h(4) have "(y, ry) \<in> set (pq st)"
    by blast
  from min [OF this] have "p \<le> ry" .
  moreover have "rx \<le> c1" using rx(2) h(1) by blast
  moreover have "0 \<le> c2" using walk_nonneg [OF nn h(6)] .
  ultimately show ?thesis
    using ry(2) h(7) by simp
qed

lemma spf_inv_settle:
  assumes inv: "spf_inv t src st S (all_edges t)" and nn: "costs_nonneg t"
    and entry: "(u, p) \<in> set (pq st)"
    and min: "\<And>v q. (v, q) \<in> set (pq st) \<Longrightarrow> p \<le> q"
    and du: "dmap st u = Some (Fin p)" and uS: "u \<notin> S"
  shows "spf_inv t src (st\<lparr>pq := remove1 (u, p) (pq st)\<rparr>) (insert u S)
           ((all_edges t)(u := {}))"
proof (rule spf_invI)
  let ?st = "st\<lparr>pq := remove1 (u, p) (pq st)\<rparr>"
  let ?E = "(all_edges t)(u := {})"
  have D: "dmap ?st = dmap st" and H: "hop ?st = hop st"
    by (simp_all add: dmap_def hop_def)
  have P: "pq ?st = remove1 (u, p) (pq st)"
    by simp
  have Q: "set (remove1 (u, p) (pq st)) = set (pq st) - {(u, p)}"
    using inv_distinct [OF inv] by simp
  show "dom (dmap ?st) = known t src" "dmap ?st src = Some (Fin 0)"
    using inv_dom [OF inv] inv_src [OF inv] by (simp_all add: D)
  show "distinct (pq ?st)"
    using inv_distinct [OF inv] by simp
  show "\<exists>vs. walk t (known t src) src vs v r'" if "dmap ?st v = Some (Fin r')" for v r'
    using that inv_walk [OF inv] by (simp add: D)
  show "\<exists>r'. dmap ?st v = Some (Fin r') \<and> r' \<le> q" if "(v, q) \<in> set (pq ?st)" for v q
    using that inv_queue [OF inv, of v q] by (simp add: D P Q del: set_remove1_eq)
  show "v \<in> insert u S \<or> (v, r') \<in> set (pq ?st)" if "dmap ?st v = Some (Fin r')" for v r'
  proof -
    from that have d: "dmap st v = Some (Fin r')" by (simp add: D)
    from inv_pending [OF inv d] show ?thesis
      unfolding P Q by blast
  qed
  show "\<exists>r. dmap ?st v = Some (Fin r) \<and>
        (\<forall>vs c. walk t (known t src) src vs v c \<longrightarrow> r \<le> c) \<and>
        (\<forall>q. (v, q) \<in> set (pq ?st) \<longrightarrow> r < q) \<and>
        (\<forall>w e. (w, e) \<in> ?E v \<longrightarrow> w \<in> known t src \<longrightarrow>
           (\<exists>r'. dmap ?st w = Some (Fin r') \<and> r' \<le> r + e))" if "v \<in> insert u S" for v
  proof (cases "v = u")
    case False
    with that have vS: "v \<in> S" by simp
    from inv_settled [OF inv vS] False show ?thesis
      unfolding D P Q by auto
  next
    case True
    have least: "\<forall>vs c. walk t (known t src) src vs u c \<longrightarrow> p \<le> c"
    proof (intro allI impI)
      fix vs c assume "walk t (known t src) src vs u c"
      with inv nn min uS show "p \<le> c"
        by (rule least_entry_is_final)
    qed
    have stale: "\<forall>q. (u, q) \<in> set (pq ?st) \<longrightarrow> p < q"
    proof (intro allI impI)
      fix q assume "(u, q) \<in> set (pq ?st)"
      then have "(u, q) \<in> set (pq st)" "q \<noteq> p"
        unfolding P Q by auto
      with min [of u q] show "p < q" by simp
    qed
    from du least stale show ?thesis
      unfolding True D by simp
  qed
  show "\<exists>h e ws. hop ?st v = Some h \<and> edge t src h = Some e \<and> h \<noteq> src \<and>
           h \<in> known t src \<and> walk t (known t src - {src}) h ws v (r' - e)"
    if "dmap ?st v = Some (Fin r')" "v \<noteq> src" for v r'
    using that inv_hop [OF inv, of v r'] by (simp add: D H)
qed

subsection \<open>The queue\<close>

lemma least_items_nonempty:
  assumes "q \<noteq> []"
  shows "least_items q \<noteq> []"
proof -
  have "finite (snd ` set q)" "snd ` set q \<noteq> {}"
    using assms by simp_all
  then obtain m where "m \<in> snd ` set q" "\<forall>x \<in> snd ` set q. m \<le> x"
    using Min_in Min_le by (metis (no_types))
  then obtain item where "item \<in> set q" "\<forall>other \<in> set q. snd item \<le> snd other"
    by auto
  then have "item \<in> set (least_items q)"
    by (simp add: least_items_def)
  then show ?thesis by auto
qed

lemma Dequeue_least:
  assumes "q \<noteq> []"
  obtains item where "Dequeue tie q = Some (item, remove1 item q)" "item \<in> set q"
    "\<And>other. other \<in> set q \<Longrightarrow> snd item \<le> snd other"
proof -
  let ?item = "least_items q ! (tie q mod length (least_items q))"
  have "tie q mod length (least_items q) < length (least_items q)"
    using least_items_nonempty [OF assms] by simp
  then have "?item \<in> set (least_items q)"
    by (rule nth_mem)
  then have "?item \<in> set q" "\<And>other. other \<in> set q \<Longrightarrow> snd ?item \<le> snd other"
    by (simp_all add: least_items_def)
  moreover have "Dequeue tie q = Some (?item, remove1 ?item q)"
    using assms by (simp add: Dequeue_def Let_def)
  ultimately show ?thesis
    using that by blast
qed

subsection \<open>The initial state\<close>

lemma map_of_fold_infinite:
  "map_of (fold (\<lambda>node d. AList.update (ID node) Infinite d) ns acc) v =
     (if v \<in> ID ` set ns then Some Infinite else map_of acc v)"
  by (induction ns arbitrary: acc) (auto simp: update_conv')

lemma dmap_init:
  "dmap (init_state src t) =
     (\<lambda>v. if v \<in> ID ` set (GetAllNodes t) then Some Infinite else None)(src \<mapsto> Fin 0)"
  by (rule ext) (simp add: dmap_def init_state_def update_conv' map_of_fold_infinite)

lemma spf_inv_init: "spf_inv t src (init_state src t) {} E"
proof (rule spf_invI)
  let ?st = "init_state src t"
  have Q: "pq ?st = [(src, 0)]"
    by (simp add: init_state_def Enqueue_def)
  have fin: "v = src \<and> r = 0" if "dmap ?st v = Some (Fin r)" for v r
    using that by (auto simp: dmap_init split: if_splits)
  show "dom (dmap ?st) = known t src"
    by (auto simp: dmap_init known_def split: if_splits)
  show "dmap ?st src = Some (Fin 0)"
    by (simp add: dmap_init)
  show "distinct (pq ?st)"
    by (simp add: Q)
  show "\<exists>vs. walk t (known t src) src vs v r" if "dmap ?st v = Some (Fin r)" for v r
  proof -
    have "walk t (known t src) src [] src 0"
      by (simp add: walk_Nil)
    with fin [OF that] show ?thesis by blast
  qed
  show "\<exists>r. dmap ?st v = Some (Fin r) \<and> r \<le> p" if "(v, p) \<in> set (pq ?st)" for v p
    using that by (simp add: Q dmap_init)
  show "v \<in> {} \<or> (v, r) \<in> set (pq ?st)" if "dmap ?st v = Some (Fin r)" for v r
    using fin [OF that] by (simp add: Q)
  show "\<exists>h e ws. hop ?st v = Some h \<and> edge t src h = Some e \<and> h \<noteq> src \<and>
           h \<in> known t src \<and> walk t (known t src - {src}) h ws v (r - e)"
    if "dmap ?st v = Some (Fin r)" "v \<noteq> src" for v r
    using fin [OF that(1)] that(2) by simp
qed simp

subsection \<open>When the queue is empty\<close>

lemma spf_inv_final:
  assumes inv: "spf_inv t src st S (all_edges t)" and empty: "pq st = []"
  shows "dmap st v = Some (Fin r) \<Longrightarrow>
           (\<exists>vs. walk t (known t src) src vs v r) \<and>
           (\<forall>vs c. walk t (known t src) src vs v c \<longrightarrow> r \<le> c)"
    and "\<forall>r. dmap st v \<noteq> Some (Fin r) \<Longrightarrow> v \<noteq> src \<and> \<not> (\<exists>vs c. walk t (known t src) src vs v c)"
proof -
  have fin_settled: "x \<in> S" if "dmap st x = Some (Fin rx)" for x rx
    using inv_pending [OF inv that] empty by simp
  show "(\<exists>vs. walk t (known t src) src vs v r) \<and>
        (\<forall>vs c. walk t (known t src) src vs v c \<longrightarrow> r \<le> c)" if d: "dmap st v = Some (Fin r)"
  proof -
    have "\<forall>vs c. walk t (known t src) src vs v c \<longrightarrow> r \<le> c"
      using inv_least [OF inv fin_settled [OF d] d] by blast
    with inv_walk [OF inv d] show ?thesis by blast
  qed
  show "v \<noteq> src \<and> \<not> (\<exists>vs c. walk t (known t src) src vs v c)" if inf: "\<forall>r. dmap st v \<noteq> Some (Fin r)"
  proof (rule conjI)
    show "v \<noteq> src"
      using inf inv_src [OF inv] by auto
    show "\<not> (\<exists>vs c. walk t (known t src) src vs v c)"
    proof
    assume "\<exists>vs c. walk t (known t src) src vs v c"
    then obtain vs c where w: "walk t (known t src) src vs v c" by blast
    have sS: "src \<in> S"
      using fin_settled [OF inv_src [OF inv]] .
    have vS: "v \<notin> S"
      using inv_settled [OF inv, of v] inf by blast
    from walk_leaves [OF w sS vS] obtain x y e where
      h: "x \<in> S" "edge t x y = Some e" "y \<notin> S" "y \<in> known t src"
      by blast
    from inv_settled [OF inv h(1)] obtain rx where
      "\<forall>w e. (w, e) \<in> all_edges t x \<longrightarrow> w \<in> known t src \<longrightarrow>
         (\<exists>r'. dmap st w = Some (Fin r') \<and> r' \<le> rx + e)"
      by blast
    moreover have "(y, e) \<in> all_edges t x"
      using h(2) by (simp add: all_edges_def)
    ultimately obtain ry where "dmap st y = Some (Fin ry)"
      using h(4) by blast
    from fin_settled [OF this] h(3) show False by blast
    qed
  qed
qed

subsection \<open>The loop of the calculator with lazy deletion\<close>

lemma spf_inv_cong:
  "distance st' = distance st \<Longrightarrow> nextHop st' = nextHop st \<Longrightarrow> pq st' = pq st \<Longrightarrow>
   spf_inv t src st' S E = spf_inv t src st S E"
  by (simp add: spf_inv_def dmap_def hop_def)

definition cache_ok :: "Topology \<Rightarrow> spf_state \<Rightarrow> bool" where
  "cache_ok t st \<longleftrightarrow> (\<forall>k n. map_of (neighborCache st) k = Some n \<longrightarrow> n = GetNeighbors t k)"

text \<open>
  \<open>previous\<close> points from every reached node to a settled node, and between settled
  nodes it points to a node that was settled earlier (\<open>rank\<close> counts the order).
\<close>

definition prev_ok :: "string \<Rightarrow> spf_state \<Rightarrow> string set \<Rightarrow> (string \<Rightarrow> nat) \<Rightarrow> bool" where
  "prev_ok src st S rank \<longleftrightarrow>
     finite S \<and> (\<forall>v \<in> S. rank v < card S) \<and>
     (\<forall>v r. dmap st v = Some (Fin r) \<longrightarrow> v \<noteq> src \<longrightarrow>
        (\<exists>x. map_of (previous st) v = Some x \<and> x \<in> S \<and> (v \<in> S \<longrightarrow> rank x < rank v)))"

lemma relax_edge_cache [simp]:
  "neighborCache (relax_edge src u p x st) = neighborCache st"
  by (cases x) (simp add: relax_edge_def Let_def)

lemma fold_relax_edge_cache [simp]:
  "neighborCache (fold (relax_edge src u p) xs st) = neighborCache st"
  by (induction xs arbitrary: st) simp_all

lemma relax_edge_distinct:
  "distinct (map fst (distance st)) \<Longrightarrow> distinct (map fst (distance (relax_edge src u p x st)))"
  by (cases x) (simp add: relax_edge_def Let_def distinct_update)

lemma fold_relax_edge_distinct:
  "distinct (map fst (distance st)) \<Longrightarrow>
   distinct (map fst (distance (fold (relax_edge src u p) xs st)))"
  by (induction xs arbitrary: st) (simp_all add: relax_edge_distinct)

lemma relax_target_unsettled:
  assumes inv: "spf_inv t src st S E" and nn: "costs_nonneg t"
    and uS: "u \<in> S" and du: "dmap st u = Some (Fin p)" and e: "edge t u w = Some e"
    and better: "less_dval (p + e) (float_at (distance st) w)"
  shows "w \<notin> S"
proof
  assume wS: "w \<in> S"
  from inv_settled [OF inv wS] obtain r0 where
    r0: "dmap st w = Some (Fin r0)" "\<forall>vs c. walk t (known t src) src vs w c \<longrightarrow> r0 \<le> c"
    by blast
  have wK: "w \<in> known t src"
    using r0(1) inv_dom [OF inv] by blast
  obtain us where "walk t (known t src) src us u p"
    using inv_walk [OF inv du] by blast
  then have "walk t (known t src) src (us @ [w]) w (p + e)"
    using e wK by (rule walk_snoc)
  with r0(2) have "r0 \<le> p + e" by blast
  with better r0(1) show False
    by (simp add: float_at_dist)
qed

lemma prev_ok_relax_edge:
  assumes inv: "spf_inv t src st S E" and nn: "costs_nonneg t"
    and uS: "u \<in> S" and du: "dmap st u = Some (Fin p)" and e: "edge t u w = Some e"
    and pr: "prev_ok src st S rank"
  shows "prev_ok src (relax_edge src u p (w, e) st) S rank"
proof (cases "less_dval (p + e) (float_at (distance st) w)")
  case False
  then show ?thesis
    using pr by (simp add: relax_edge_keeps)
next
  case True
  let ?st = "relax_edge src u p (w, e) st"
  have D: "dmap ?st = (dmap st)(w \<mapsto> Fin (p + e))"
    using True by (rule relax_edge_dist)
  have P: "map_of (previous ?st) = (map_of (previous st))(w \<mapsto> u)"
    using True by (simp add: relax_edge_def Let_def update_conv')
  have wS: "w \<notin> S"
    using inv nn uS du e True by (rule relax_target_unsettled)
  have "\<exists>x. map_of (previous ?st) v = Some x \<and> x \<in> S \<and> (v \<in> S \<longrightarrow> rank x < rank v)"
    if v: "dmap ?st v = Some (Fin r)" "v \<noteq> src" for v r
  proof (cases "v = w")
    case True
    then show ?thesis
      using uS wS by (simp add: P)
  next
    case False
    with v have "dmap st v = Some (Fin r)" by (simp add: D)
    with pr v(2) have "\<exists>x. map_of (previous st) v = Some x \<and> x \<in> S \<and> (v \<in> S \<longrightarrow> rank x < rank v)"
      unfolding prev_ok_def by blast
    with False show ?thesis by (simp add: P)
  qed
  with pr show ?thesis
    unfolding prev_ok_def by blast
qed

lemma relax_all_lazy:
  assumes "spf_inv t src st S E" and "costs_nonneg t" and "u \<in> S"
    and "dmap st u = Some (Fin p)" and "\<And>w e. (w, e) \<in> set xs \<Longrightarrow> edge t u w = Some e"
    and "prev_ok src st S rank"
  shows "prev_ok src (fold (relax_edge src u p) xs st) S rank"
  using assms
proof (induction xs arbitrary: st E)
  case Nil
  then show ?case by simp
next
  case (Cons x xs)
  obtain w e where x: "x = (w, e)" by (cases x)
  let ?st = "relax_edge src u p (w, e) st"
  have e: "edge t u w = Some e"
    using Cons.prems(5) [of w e] by (simp add: x)
  have step: "spf_inv t src ?st S (E(u := insert (w, e) (E u)))"
    using Cons.prems(1,2,3,4) e by (rule spf_inv_relax_edge)
  have du: "dmap ?st u = Some (Fin p)"
    using inv_settled_unique [OF Cons.prems(1) step Cons.prems(3) Cons.prems(3)] Cons.prems(4)
    by simp
  have pr: "prev_ok src ?st S rank"
    using Cons.prems(1,2,3,4) e Cons.prems(6) by (rule prev_ok_relax_edge)
  have "prev_ok src (fold (relax_edge src u p) xs ?st) S rank"
    using step Cons.prems(2,3) du _ pr
  proof (rule Cons.IH)
    fix w' e' assume "(w', e') \<in> set xs"
    then show "edge t u w' = Some e'"
      using Cons.prems(5) [of w' e'] by simp
  qed
  then show ?case
    by (simp add: x)
qed

lemma prev_ok_settle:
  assumes pr: "prev_ok src st S rank" and uS: "u \<notin> S"
  shows "prev_ok src (st\<lparr>pq := q\<rparr>) (insert u S) (rank(u := card S))"
proof -
  have fin: "finite S" and bound: "\<And>v. v \<in> S \<Longrightarrow> rank v < card S"
    using pr unfolding prev_ok_def by blast+
  have D: "dmap (st\<lparr>pq := q\<rparr>) = dmap st"
    by (simp add: dmap_def)
  have card: "card (insert u S) = Suc (card S)"
    using fin uS by simp
  have "\<exists>x. map_of (previous (st\<lparr>pq := q\<rparr>)) v = Some x \<and> x \<in> insert u S \<and>
          (v \<in> insert u S \<longrightarrow> (rank(u := card S)) x < (rank(u := card S)) v)"
    if v: "dmap (st\<lparr>pq := q\<rparr>) v = Some (Fin r)" "v \<noteq> src" for v r
  proof -
    from v pr obtain x where x: "map_of (previous st) v = Some x" "x \<in> S"
      "v \<in> S \<longrightarrow> rank x < rank v"
      unfolding prev_ok_def D by blast
    have xu: "x \<noteq> u" using x(2) uS by blast
    have "(rank(u := card S)) x < (rank(u := card S)) v" if "v \<in> insert u S"
    proof (cases "v = u")
      case True
      then show ?thesis using bound [OF x(2)] xu by simp
    next
      case False
      with that x(3) xu show ?thesis by simp
    qed
    with x(1,2) show ?thesis by auto
  qed
  moreover have "\<forall>v \<in> insert u S. (rank(u := card S)) v < card (insert u S)"
    using bound by (auto simp: card less_Suc_eq)
  ultimately show ?thesis
    unfolding prev_ok_def using fin by blast
qed

lemma GetNeighbors_distinct: "distinct (map fst (GetNeighbors t u))"
proof -
  have "distinct (map fst acc) \<Longrightarrow>
        distinct (map fst (fold (\<lambda>(k, v) acc. AList.update k v acc) xs acc))" for xs acc
    by (induction xs arbitrary: acc) (auto simp: distinct_update)
  from this [of "[]"] show ?thesis
    by (simp add: GetNeighbors_def)
qed

lemma GetNeighbors_edge: "(w, e) \<in> set (GetNeighbors t u) \<Longrightarrow> edge t u w = Some e"
  by (simp add: edge_def GetNeighbors_distinct)

lemma all_edges_neighbors: "all_edges t u \<subseteq> set (GetNeighbors t u)"
  by (auto simp: all_edges_def edge_def dest: map_of_SomeD)

text \<open>
  The loop invariant, and the two ways an iteration goes: a stale entry is thrown away, or
  the node of the entry is settled and its edges are relaxed.
\<close>

definition lazy_inv :: "Topology \<Rightarrow> string \<Rightarrow> spf_state \<Rightarrow> bool" where
  "lazy_inv t src st \<longleftrightarrow>
     (\<exists>S rank. spf_inv t src st S (all_edges t) \<and> prev_ok src st S rank) \<and>
     cache_ok t st \<and> distinct (map fst (distance st))"

lemma cached_neighbors_ok:
  assumes "cache_ok t st"
  shows "fst (cached_neighbors t u st) = GetNeighbors t u"
    and "cache_ok t (snd (cached_neighbors t u st))"
    and "distance (snd (cached_neighbors t u st)) = distance st"
    and "nextHop (snd (cached_neighbors t u st)) = nextHop st"
    and "previous (snd (cached_neighbors t u st)) = previous st"
    and "pq (snd (cached_neighbors t u st)) = pq st"
    and "visited (snd (cached_neighbors t u st)) = visited st"
  using assms
  by (auto simp: cached_neighbors_def cache_ok_def Let_def update_conv' split: option.splits)

lemma spf_step_lazy:
  assumes inv: "spf_inv t src st S (all_edges t)" and pr: "prev_ok src st S rank"
    and c: "cache_ok t st" and dd: "distinct (map fst (distance st))"
    and nn: "costs_nonneg t" and ne: "pq st \<noteq> []"
  shows "lazy_inv t src (spf_step tie t src st) \<and>
         ((settled (spf_step tie t src st) = S \<and>
           length (pq (spf_step tie t src st)) < length (pq st)) \<or>
          (\<exists>u. u \<in> known t src \<and> u \<notin> S \<and> settled (spf_step tie t src st) = insert u S))"
proof -
  from Dequeue_least [OF ne, of tie] obtain item where
    deq: "Dequeue tie (pq st) = Some (item, remove1 item (pq st))" and
    mem: "item \<in> set (pq st)" and
    least: "\<And>other. other \<in> set (pq st) \<Longrightarrow> snd item \<le> snd other"
    by blast
  obtain u p where item: "item = (u, p)" by (cases item)
  let ?st1 = "st\<lparr>pq := remove1 (u, p) (pq st)\<rparr>"
  from inv_queue [OF inv mem [unfolded item]] obtain r where
    r: "dmap st u = Some (Fin r)" "r \<le> p"
    by blast
  have fl: "float_at (distance st) u = Fin r"
    using r(1) by (simp add: float_at_def dmap_def)
  show ?thesis
  proof (cases "r < p")
    case True
    have step: "spf_step tie t src st = ?st1"
      using True by (simp add: spf_step_def deq item Let_def fl)
    have inv1: "spf_inv t src ?st1 S (all_edges t)"
      using inv mem [unfolded item] r(1) True by (rule spf_inv_drop_stale)
    have pr1: "prev_ok src ?st1 S rank"
      using pr by (simp add: prev_ok_def dmap_def)
    have "lazy_inv t src ?st1"
      unfolding lazy_inv_def using inv1 pr1 c dd by (auto simp: cache_ok_def)
    moreover have "settled ?st1 = S"
      using inv_settled_eq [OF inv1] by simp
    moreover have "length (pq ?st1) < length (pq st)"
      using mem [unfolded item] by (simp add: length_remove1) (cases "pq st"; simp)
    ultimately show ?thesis
      unfolding step by blast
  next
    case False
    with r(2) have rp: "r = p" by simp
    have du: "dmap st u = Some (Fin p)"
      using r(1) rp by simp
    have uS: "u \<notin> S"
      using inv_stale [OF inv _ du mem [unfolded item]] by blast
    have uK: "u \<in> known t src"
      using du inv_dom [OF inv] by blast
    have min: "\<And>v q. (v, q) \<in> set (pq st) \<Longrightarrow> p \<le> q"
      using least by (fastforce simp: item)
    let ?E0 = "(all_edges t)(u := {})"
    let ?st2 = "snd (cached_neighbors t u ?st1)"
    let ?ns = "GetNeighbors t u"
    let ?st3 = "fold (relax_edge src u p) ?ns ?st2"
    have c1: "cache_ok t ?st1"
      using c by (simp add: cache_ok_def)
    note cn = cached_neighbors_ok [OF c1, of u]
    have step: "spf_step tie t src st = ?st3"
      using rp cn(1) by (simp add: spf_step_def deq item Let_def fl split_beta)
    have inv1: "spf_inv t src ?st1 (insert u S) ?E0"
      using inv nn mem [unfolded item] min du uS by (rule spf_inv_settle)
    have inv2: "spf_inv t src ?st2 (insert u S) ?E0"
      using inv1 cn(3,4,6) by (simp add: spf_inv_cong [of ?st2 ?st1])
    have du2: "dmap ?st2 u = Some (Fin p)"
      using du cn(3) by (simp add: dmap_def)
    have pr1: "prev_ok src ?st1 (insert u S) (rank(u := card S))"
      using pr uS by (rule prev_ok_settle)
    have pr2: "prev_ok src ?st2 (insert u S) (rank(u := card S))"
      using pr1 cn(3,5) by (simp add: prev_ok_def dmap_def)
    have inv3: "spf_inv t src ?st3 (insert u S) (?E0(u := ?E0 u \<union> set ?ns))"
      using inv2 nn _ du2 GetNeighbors_edge by (rule spf_inv_relax_all) simp
    have "spf_inv t src ?st3 (insert u S) (all_edges t)"
      using inv3
    proof (rule spf_inv_weaken)
      fix v show "all_edges t v \<subseteq> (?E0(u := ?E0 u \<union> set ?ns)) v"
        using all_edges_neighbors [of t u] by auto
    qed
    moreover have "prev_ok src ?st3 (insert u S) (rank(u := card S))"
      using inv2 nn _ du2 GetNeighbors_edge pr2 by (rule relax_all_lazy) simp
    moreover have "cache_ok t ?st3"
      using cn(2) by (simp add: cache_ok_def)
    moreover have "distinct (map fst (distance ?st3))"
      using dd cn(3) by (intro fold_relax_edge_distinct) simp
    ultimately have "lazy_inv t src ?st3" and "settled ?st3 = insert u S"
      unfolding lazy_inv_def using inv_settled_eq by blast+
    with uK uS show ?thesis
      unfolding step by blast
  qed
qed

lemma known_finite: "finite (known t src)"
  by (simp add: known_def)

lemma lazy_inv_init: "lazy_inv t src (init_state src t)"
proof -
  have "prev_ok src (init_state src t) {} (\<lambda>_. 0)"
    by (auto simp: prev_ok_def dmap_init split: if_splits)
  moreover have "distinct (map fst (fold (\<lambda>node d. AList.update (ID node) Infinite d) ns acc))"
    if "distinct (map fst acc)" for ns and acc :: "(string \<times> dval) list"
    using that by (induction ns arbitrary: acc) (simp_all add: distinct_update)
  from this [of "[]" "GetAllNodes t"]
  have "distinct (map fst (distance (init_state src t)))"
    by (simp add: init_state_def distinct_update)
  moreover have "cache_ok t (init_state src t)"
    by (simp add: cache_ok_def init_state_def)
  ultimately show ?thesis
    unfolding lazy_inv_def using spf_inv_init by blast
qed

lemma lazy_inv_step:
  assumes "lazy_inv t src st" and "costs_nonneg t" and "pq st \<noteq> []"
  shows "lazy_inv t src (spf_step tie t src st)"
proof -
  from assms(1) obtain S rank where
    "spf_inv t src st S (all_edges t)" "prev_ok src st S rank"
    "cache_ok t st" "distinct (map fst (distance st))"
    unfolding lazy_inv_def by blast
  from spf_step_lazy [OF this assms(2,3)] show ?thesis by blast
qed

text \<open>
  Termination: an iteration either settles one more known node or shortens the queue
  and settles none.
\<close>

definition progress :: "Topology \<Rightarrow> string \<Rightarrow> (spf_state \<times> spf_state) set" where
  "progress t src =
     inv_image (less_than <*lex*> less_than)
       (\<lambda>st. (card (known t src - settled st), length (pq st)))"

lemma lazy_step_progress:
  assumes "lazy_inv t src st" and "costs_nonneg t" and "pq st \<noteq> []"
  shows "(spf_step tie t src st, st) \<in> progress t src"
proof -
  from assms(1) obtain S rank where
    h: "spf_inv t src st S (all_edges t)" "prev_ok src st S rank"
    "cache_ok t st" "distinct (map fst (distance st))"
    unfolding lazy_inv_def by blast
  have S: "settled st = S"
    using inv_settled_eq [OF h(1)] by simp
  from spf_step_lazy [OF h assms(2,3), of tie]
  consider "settled (spf_step tie t src st) = S"
      "length (pq (spf_step tie t src st)) < length (pq st)"
    | u where "u \<in> known t src" "u \<notin> S" "settled (spf_step tie t src st) = insert u S"
    by blast
  then show ?thesis
  proof cases
    case 1
    then show ?thesis
      by (simp add: progress_def S)
  next
    case 2
    have "known t src - insert u S \<subset> known t src - S"
      using 2(1,2) by blast
    then have "card (known t src - insert u S) < card (known t src - S)"
      by (intro psubset_card_mono) (simp_all add: known_finite)
    then show ?thesis
      by (simp add: progress_def S 2(3))
  qed
qed

lemma lazy_loop_ends:
  assumes "costs_nonneg t"
  shows "\<exists>st. while_option (\<lambda>st. pq st \<noteq> []) (spf_step tie t src) (init_state src t) = Some st \<and>
           lazy_inv t src st \<and> pq st = []"
proof -
  let ?b = "\<lambda>st. pq st \<noteq> []" and ?c = "spf_step tie t src"
  have "wf {(s', s). (lazy_inv t src s \<and> ?b s) \<and> s' = ?c s}"
  proof (rule wf_subset)
    show "wf (progress t src)"
      unfolding progress_def by (intro wf_inv_image wf_lex_prod wf_less_than)
    show "{(s', s). (lazy_inv t src s \<and> ?b s) \<and> s' = ?c s} \<subseteq> progress t src"
      using lazy_step_progress [OF _ assms] by auto
  qed
  then obtain st where st: "while_option ?b ?c (init_state src t) = Some st"
    using wf_while_option_Some [of "lazy_inv t src" ?b ?c "init_state src t"]
      lazy_inv_step [OF _ assms] lazy_inv_init
    by blast
  have "lazy_inv t src st"
    using while_option_rule [where P = "lazy_inv t src", OF _ st lazy_inv_init]
      lazy_inv_step [OF _ assms]
    by blast
  moreover have "pq st = []"
    using while_option_stop [OF st] by simp
  ultimately show ?thesis
    using st by blast
qed

subsection \<open>The walk back and the routing table\<close>

lemma trace_back_total:
  assumes inv: "spf_inv t src st S E" and pr: "prev_ok src st S rank" and "d \<in> S"
  shows "\<exists>path. trace_back src (previous st) d acc = Some path"
  using assms(3)
proof (induction "rank d" arbitrary: d acc rule: less_induct)
  case less
  show ?case
  proof (cases "d = [] \<or> d = src")
    case True
    then show ?thesis
      by (subst trace_back.simps) (auto simp: Let_def)
  next
    case False
    from inv_settled [OF inv less.prems] obtain r where "dmap st d = Some (Fin r)"
      by blast
    with pr False less.prems obtain x where
      x: "map_of (previous st) d = Some x" "x \<in> S" "rank x < rank d"
      unfolding prev_ok_def by blast
    have "string_at (previous st) d = x"
      using x(1) by (simp add: string_at_def)
    moreover from less.hyps [OF x(3) x(2)]
    obtain path where "trace_back src (previous st) x (acc @ [d]) = Some path"
      by blast
    ultimately show ?thesis
      using False by (subst trace_back.simps) (simp add: Let_def)
  qed
qed

text \<open>What the collecting loop leaves in the table, entry by entry of \<open>distance\<close>.\<close>

definition route_of :: "string \<Rightarrow> spf_state \<Rightarrow> string \<Rightarrow> real \<Rightarrow> Route \<Rightarrow> bool" where
  "route_of src st d c route \<longleftrightarrow>
     rt_Destination route = d \<and> rt_NextHop route = string_at (nextHop st) d \<and> rt_Cost route = c"

lemma fold_collect_route:
  assumes "distinct (map fst xs)"
    and "\<And>d c. (d, Fin c) \<in> set xs \<Longrightarrow> d \<noteq> src \<Longrightarrow>
           \<exists>path. trace_back src (previous st) d [] = Some path"
  shows "\<exists>table. fold (collect_route src st) xs (Some acc) = Some table \<and>
           (\<forall>d. (\<forall>c. map_of xs d = Some (Fin c) \<longrightarrow> d \<noteq> src \<longrightarrow>
                    (\<exists>route. map_of table d = Some route \<and> route_of src st d c route)) \<and>
                ((d = src \<or> map_of xs d = None \<or> map_of xs d = Some Infinite) \<longrightarrow>
                    map_of table d = map_of acc d))"
  using assms
proof (induction xs arbitrary: acc)
  case Nil
  then show ?case by simp
next
  case (Cons x xs)
  obtain k dv where x: "x = (k, dv)" by (cases x)
  have k_fresh: "map_of xs k = None"
    using Cons.prems(1) by (simp add: x map_of_eq_None_iff)
  have dist: "distinct (map fst xs)"
    using Cons.prems(1) by simp
  have paths: "\<And>d c. (d, Fin c) \<in> set xs \<Longrightarrow> d \<noteq> src \<Longrightarrow>
           \<exists>path. trace_back src (previous st) d [] = Some path"
    using Cons.prems(2) by (meson list.set_intros(2))
  have IH: "\<exists>table. fold (collect_route src st) xs (Some A) = Some table \<and>
           (\<forall>d. (\<forall>c. map_of xs d = Some (Fin c) \<longrightarrow> d \<noteq> src \<longrightarrow>
                    (\<exists>route. map_of table d = Some route \<and> route_of src st d c route)) \<and>
                ((d = src \<or> map_of xs d = None \<or> map_of xs d = Some Infinite) \<longrightarrow>
                    map_of table d = map_of A d))" for A
    by (rule Cons.IH [OF dist]) (rule paths; assumption)
  consider (skip) "k = src \<or> dv = Infinite"
    | (add) c where "k \<noteq> src" "dv = Fin c"
    by (cases dv) auto
  then show ?case
  proof cases
    case skip
    then have head: "collect_route src st x (Some acc) = Some acc"
      by (auto simp: collect_route_def x)
    from IH [of acc] obtain table where
      t: "fold (collect_route src st) xs (Some acc) = Some table"
      "\<And>d c. map_of xs d = Some (Fin c) \<Longrightarrow> d \<noteq> src \<Longrightarrow>
          \<exists>route. map_of table d = Some route \<and> route_of src st d c route"
      "\<And>d. d = src \<or> map_of xs d = None \<or> map_of xs d = Some Infinite \<Longrightarrow>
          map_of table d = map_of acc d"
      by blast
    have "\<exists>route. map_of table d = Some route \<and> route_of src st d c route"
      if "map_of (x # xs) d = Some (Fin c)" "d \<noteq> src" for d c
    proof (cases "d = k")
      case True
      with that skip show ?thesis by (auto simp: x)
    next
      case False
      with that have "map_of xs d = Some (Fin c)" by (simp add: x)
      with t(2) that(2) show ?thesis by blast
    qed
    moreover have "map_of table d = map_of acc d"
      if "d = src \<or> map_of (x # xs) d = None \<or> map_of (x # xs) d = Some Infinite" for d
    proof (cases "d = k")
      case True
      with k_fresh t(3) show ?thesis by blast
    next
      case False
      with that have "d = src \<or> map_of xs d = None \<or> map_of xs d = Some Infinite"
        by (simp add: x)
      with t(3) show ?thesis by blast
    qed
    ultimately show ?thesis
      using t(1) head by (simp del: map_of.simps)
  next
    case add
    have "(k, Fin c) \<in> set (x # xs)"
      by (simp add: x add(2))
    from Cons.prems(2) [OF this add(1)] obtain path where
      path: "trace_back src (previous st) k [] = Some path"
      by blast
    let ?route = "\<lparr>rt_Destination = k, rt_NextHop = string_at (nextHop st) k,
                   rt_Cost = c, Path = rev path\<rparr>"
    let ?acc = "AddRoute ?route acc"
    have head: "collect_route src st x (Some acc) = Some ?acc"
      using add path by (simp add: collect_route_def x)
    have acc_k: "map_of ?acc k = Some ?route"
      by (simp add: AddRoute_def update_conv')
    have acc_other: "map_of ?acc d = map_of acc d" if "d \<noteq> k" for d
      using that by (simp add: AddRoute_def update_conv')
    from IH [of ?acc] obtain table where
      t: "fold (collect_route src st) xs (Some ?acc) = Some table"
      "\<And>d c. map_of xs d = Some (Fin c) \<Longrightarrow> d \<noteq> src \<Longrightarrow>
          \<exists>route. map_of table d = Some route \<and> route_of src st d c route"
      "\<And>d. d = src \<or> map_of xs d = None \<or> map_of xs d = Some Infinite \<Longrightarrow>
          map_of table d = map_of ?acc d"
      by blast
    have "\<exists>route. map_of table d = Some route \<and> route_of src st d c' route"
      if "map_of (x # xs) d = Some (Fin c')" "d \<noteq> src" for d c'
    proof (cases "d = k")
      case True
      with that have "c' = c" by (simp add: x add(2))
      moreover have "map_of table k = Some ?route"
        using t(3) [of k] k_fresh acc_k by simp
      ultimately show ?thesis
        unfolding True by (simp add: route_of_def)
    next
      case False
      with that have "map_of xs d = Some (Fin c')" by (simp add: x)
      with t(2) that(2) show ?thesis by blast
    qed
    moreover have "map_of table d = map_of acc d"
      if "d = src \<or> map_of (x # xs) d = None \<or> map_of (x # xs) d = Some Infinite" for d
    proof (cases "d = k")
      case True
      with that add show ?thesis by (auto simp: x)
    next
      case False
      with that have "d = src \<or> map_of xs d = None \<or> map_of xs d = Some Infinite"
        by (simp add: x)
      with t(3) [of d] acc_other [OF False] show ?thesis by simp
    qed
    ultimately show ?thesis
      using t(1) head by (simp del: map_of.simps)
  qed
qed

subsection \<open>The routing table of the calculator with lazy deletion\<close>

text \<open>
  What a finished table says about a destination: an entry carries a least cost over the
  walks through known nodes, with a walk of that cost, and its next hop is a neighbour of
  the source from which a walk that avoids the source reaches the destination at the
  entry's cost less the first edge; a destination without an entry is the source or has no
  walk through known nodes.
\<close>

definition table_ok :: "Topology \<Rightarrow> string \<Rightarrow> (string \<times> Route) list \<Rightarrow> bool" where
  "table_ok t src table \<longleftrightarrow>
     (\<forall>d. (\<forall>route. map_of table d = Some route \<longrightarrow>
              d \<noteq> src \<and> rt_Destination route = d \<and>
              (\<exists>vs. walk t (known t src) src vs d (rt_Cost route)) \<and>
              (\<forall>vs c. walk t (known t src) src vs d c \<longrightarrow> rt_Cost route \<le> c) \<and>
              (\<exists>e ws. edge t src (rt_NextHop route) = Some e \<and> rt_NextHop route \<noteq> src \<and>
                 rt_NextHop route \<in> known t src \<and>
                 walk t (known t src - {src}) (rt_NextHop route) ws d (rt_Cost route - e))) \<and>
          (map_of table d = None \<longrightarrow> d = src \<or> \<not> (\<exists>vs c. walk t (known t src) src vs d c)))"

lemma table_ok_from_state:
  assumes inv: "spf_inv t src st S (all_edges t)" and empty: "pq st = []"
    and entries: "\<And>d c. dmap st d = Some (Fin c) \<Longrightarrow> d \<noteq> src \<Longrightarrow>
        \<exists>route. map_of table d = Some route \<and> route_of src st d c route"
    and absent: "\<And>d. d = src \<or> dmap st d = None \<or> dmap st d = Some Infinite \<Longrightarrow>
        map_of table d = None"
  shows "table_ok t src table"
  unfolding table_ok_def
proof (intro allI conjI impI)
  fix d route assume m: "map_of table d = Some route"
  have ds: "d \<noteq> src" using m absent [of d] by auto
  obtain c where c: "dmap st d = Some (Fin c)"
  proof (cases "dmap st d")
    case None
    with m absent [of d] show ?thesis by simp
  next
    case (Some dv)
    with m absent [of d] that show ?thesis by (cases dv) simp_all
  qed
  from entries [OF c ds] m have r: "route_of src st d c route" by simp
  from inv_hop [OF inv c ds] obtain h e ws where h:
    "hop st d = Some h" "edge t src h = Some e" "h \<noteq> src" "h \<in> known t src"
    "walk t (known t src - {src}) h ws d (c - e)"
    by blast
  have nh: "rt_NextHop route = h"
    using r h(1) by (simp add: route_of_def string_at_def hop_def)
  have cost: "rt_Cost route = c"
    using r by (simp add: route_of_def)
  show "d \<noteq> src" by fact
  show "rt_Destination route = d"
    using r by (simp add: route_of_def)
  show "\<exists>vs. walk t (known t src) src vs d (rt_Cost route)"
    using spf_inv_final(1) [OF inv empty c] cost by blast
  show "walk t (known t src) src vs d c' \<Longrightarrow> rt_Cost route \<le> c'" for vs c'
    using spf_inv_final(1) [OF inv empty c] cost by blast
  show "\<exists>e ws. edge t src (rt_NextHop route) = Some e \<and> rt_NextHop route \<noteq> src \<and>
         rt_NextHop route \<in> known t src \<and>
         walk t (known t src - {src}) (rt_NextHop route) ws d (rt_Cost route - e)"
    using h(2,3,4,5) unfolding nh cost by blast
next
  fix d assume m: "map_of table d = None"
  show "d = src \<or> \<not> (\<exists>vs c. walk t (known t src) src vs d c)"
  proof (cases "\<exists>c. dmap st d = Some (Fin c)")
    case True
    then obtain c where c: "dmap st d = Some (Fin c)" by blast
    show ?thesis
    proof (cases "d = src")
      case False
      from entries [OF c False] m show ?thesis by simp
    qed simp
  next
    case False
    then have "\<forall>r. dmap st d \<noteq> Some (Fin r)" by simp
    from spf_inv_final(2) [OF inv empty this] show ?thesis by blast
  qed
qed

lemma ComputeRoutes_table:
  assumes nn: "costs_nonneg t"
  shows "\<exists>table. ComputeRoutes tie src t = Some table \<and> table_ok t src table"
proof -
  from lazy_loop_ends [OF nn, of tie src] obtain st where
    loop: "while_option (\<lambda>st. pq st \<noteq> []) (spf_step tie t src) (init_state src t) = Some st"
    and li: "lazy_inv t src st" and empty: "pq st = []"
    by blast
  from li obtain S rank where
    inv: "spf_inv t src st S (all_edges t)" and pr: "prev_ok src st S rank"
    and dd: "distinct (map fst (distance st))"
    unfolding lazy_inv_def by blast
  have paths: "\<exists>path. trace_back src (previous st) d [] = Some path"
    if "(d, Fin c) \<in> set (distance st)" "d \<noteq> src" for d c
  proof -
    from that(1) dd have "dmap st d = Some (Fin c)"
      by (simp add: dmap_def)
    from inv_pending [OF inv this] empty have "d \<in> S" by simp
    with inv pr show ?thesis by (rule trace_back_total)
  qed
  have "\<exists>table. fold (collect_route src st) (distance st) (Some []) = Some table \<and>
           (\<forall>d. (\<forall>c. map_of (distance st) d = Some (Fin c) \<longrightarrow> d \<noteq> src \<longrightarrow>
                    (\<exists>route. map_of table d = Some route \<and> route_of src st d c route)) \<and>
                ((d = src \<or> map_of (distance st) d = None \<or>
                  map_of (distance st) d = Some Infinite) \<longrightarrow>
                    map_of table d = map_of [] d))"
    by (rule fold_collect_route [OF dd]) (rule paths; assumption)
  then obtain table where
    table: "fold (collect_route src st) (distance st) (Some []) = Some table"
    and entries: "\<And>d c. map_of (distance st) d = Some (Fin c) \<Longrightarrow> d \<noteq> src \<Longrightarrow>
        \<exists>route. map_of table d = Some route \<and> route_of src st d c route"
    and absent: "\<And>d. d = src \<or> map_of (distance st) d = None \<or>
        map_of (distance st) d = Some Infinite \<Longrightarrow> map_of table d = map_of [] d"
    by blast
  have "table_ok t src table"
    using inv empty
  proof (rule table_ok_from_state)
    show "\<exists>route. map_of table d = Some route \<and> route_of src st d c route"
      if "dmap st d = Some (Fin c)" "d \<noteq> src" for d c
      using entries that by (simp add: dmap_def)
    show "map_of table d = None"
      if "d = src \<or> dmap st d = None \<or> dmap st d = Some Infinite" for d
      using absent [of d] that by (simp add: dmap_def)
  qed
  moreover have "ComputeRoutes tie src t = Some table"
    by (simp add: ComputeRoutes_def loop table)
  ultimately show ?thesis by blast
qed

subsection \<open>The loop of the calculator with a visited set\<close>

definition visited_set :: "spf_state \<Rightarrow> string set" where
  "visited_set st = {k. bool_at (visited st) k}"

definition same_core :: "spf_state \<Rightarrow> spf_state \<Rightarrow> bool" where
  "same_core st st' \<longleftrightarrow>
     distance st = distance st' \<and> nextHop st = nextHop st' \<and> pq st = pq st' \<and>
     neighborCache st = neighborCache st'"

lemma same_core_relax:
  "same_core st st' \<Longrightarrow>
   same_core (relax_edge_visited src u p x st) (relax_edge src u p x st')"
  by (cases x) (simp add: same_core_def relax_edge_visited_def relax_edge_def Let_def)

lemma same_core_fold:
  "same_core st st' \<Longrightarrow>
   same_core (fold (relax_edge_visited src u p) xs st) (fold (relax_edge src u p) xs st')"
  by (induction xs arbitrary: st st') (simp_all add: same_core_relax)

lemma relax_edge_visited_keeps [simp]:
  "visited (relax_edge_visited src u p x st) = visited st"
  by (cases x) (simp add: relax_edge_visited_def Let_def)

lemma fold_relax_edge_visited_keeps [simp]:
  "visited (fold (relax_edge_visited src u p) xs st) = visited st"
  by (induction xs arbitrary: st) simp_all

definition visited_inv :: "Topology \<Rightarrow> string \<Rightarrow> spf_state \<Rightarrow> bool" where
  "visited_inv t src st \<longleftrightarrow>
     spf_inv t src st (visited_set st) (all_edges t) \<and> cache_ok t st \<and>
     distinct (map fst (distance st))"

lemma spf_step_visited_cases:
  assumes inv: "spf_inv t src st (visited_set st) (all_edges t)"
    and c: "cache_ok t st" and dd: "distinct (map fst (distance st))"
    and nn: "costs_nonneg t" and ne: "pq st \<noteq> []"
  shows "visited_inv t src (spf_step_visited tie t src st) \<and>
         ((visited_set (spf_step_visited tie t src st) = visited_set st \<and>
           length (pq (spf_step_visited tie t src st)) < length (pq st)) \<or>
          (\<exists>u. u \<in> known t src \<and> u \<notin> visited_set st \<and>
             visited_set (spf_step_visited tie t src st) = insert u (visited_set st)))"
proof -
  let ?S = "visited_set st"
  from Dequeue_least [OF ne, of tie] obtain item where
    deq: "Dequeue tie (pq st) = Some (item, remove1 item (pq st))" and
    mem: "item \<in> set (pq st)" and
    least: "\<And>other. other \<in> set (pq st) \<Longrightarrow> snd item \<le> snd other"
    by blast
  obtain u p where item: "item = (u, p)" by (cases item)
  let ?st1 = "st\<lparr>pq := remove1 (u, p) (pq st)\<rparr>"
  from inv_queue [OF inv mem [unfolded item]] obtain r where
    r: "dmap st u = Some (Fin r)" "r \<le> p"
    by blast
  show ?thesis
  proof (cases "bool_at (visited st) u")
    case True
    then have uS: "u \<in> ?S" by (simp add: visited_set_def)
    have step: "spf_step_visited tie t src st = ?st1"
      using True by (simp add: spf_step_visited_def deq item Let_def)
    have "r < p"
      using inv uS r(1) mem [unfolded item] by (rule inv_stale)
    with inv mem [unfolded item] r(1) have inv1: "spf_inv t src ?st1 ?S (all_edges t)"
      by (rule spf_inv_drop_stale)
    have V1: "visited_set ?st1 = ?S"
      by (simp add: visited_set_def)
    have "visited_inv t src ?st1"
      unfolding visited_inv_def V1 using inv1 c dd by (simp add: cache_ok_def)
    moreover have "length (pq ?st1) < length (pq st)"
      using mem [unfolded item] by (simp add: length_remove1) (cases "pq st"; simp)
    ultimately show ?thesis
      unfolding step using V1 by blast
  next
    case False
    then have uS: "u \<notin> ?S" by (simp add: visited_set_def)
    from inv_pending [OF inv r(1)] uS have "(u, r) \<in> set (pq st)" by blast
    from least [OF this] have "p \<le> r" by (simp add: item)
    with r(2) have rp: "r = p" by simp
    have du: "dmap st u = Some (Fin p)"
      using r(1) rp by simp
    have uK: "u \<in> known t src"
      using du inv_dom [OF inv] by blast
    have min: "\<And>v q. (v, q) \<in> set (pq st) \<Longrightarrow> p \<le> q"
      using least by (fastforce simp: item)
    let ?E0 = "(all_edges t)(u := {})"
    let ?st2 = "st\<lparr>pq := remove1 (u, p) (pq st), visited := AList.update u True (visited st)\<rparr>"
    let ?st3 = "snd (cached_neighbors t u ?st2)"
    let ?ns = "GetNeighbors t u"
    let ?st4 = "fold (relax_edge_visited src u p) ?ns ?st3"
    let ?st4' = "fold (relax_edge src u p) ?ns ?st3"
    have c2: "cache_ok t ?st2"
      using c by (simp add: cache_ok_def)
    note cn = cached_neighbors_ok [OF c2, of u]
    have step: "spf_step_visited tie t src st = ?st4"
      using False cn(1) by (simp add: spf_step_visited_def deq item Let_def split_beta)
    have V: "visited_set ?st4 = insert u ?S"
      using cn(7) by (auto simp: visited_set_def bool_at_def update_conv')
    have inv1: "spf_inv t src ?st1 (insert u ?S) ?E0"
      using inv nn mem [unfolded item] min du uS by (rule spf_inv_settle)
    have inv3: "spf_inv t src ?st3 (insert u ?S) ?E0"
      by (rule spf_inv_cong [THEN iffD2, OF _ _ _ inv1]) (simp_all add: cn)
    have du3: "dmap ?st3 u = Some (Fin p)"
      using du cn(3) by (simp add: dmap_def)
    have "spf_inv t src ?st4' (insert u ?S) (?E0(u := ?E0 u \<union> set ?ns))"
      using inv3 nn _ du3 GetNeighbors_edge by (rule spf_inv_relax_all) simp
    then have inv4': "spf_inv t src ?st4' (insert u ?S) (all_edges t)"
    proof (rule spf_inv_weaken)
      fix v show "all_edges t v \<subseteq> (?E0(u := ?E0 u \<union> set ?ns)) v"
        using all_edges_neighbors [of t u] by auto
    qed
    have core: "same_core ?st4 ?st4'"
      by (rule same_core_fold) (simp add: same_core_def)
    then have eq: "distance ?st4 = distance ?st4'" "nextHop ?st4 = nextHop ?st4'"
      "pq ?st4 = pq ?st4'" "neighborCache ?st4 = neighborCache ?st4'"
      unfolding same_core_def by blast+
    have "spf_inv t src ?st4 (insert u ?S) (all_edges t)"
      by (rule spf_inv_cong [THEN iffD2, OF eq(1,2,3) inv4'])
    moreover have "cache_ok t ?st4"
    proof -
      have "neighborCache ?st4 = neighborCache ?st3"
        unfolding eq(4) by simp
      with cn(2) show ?thesis
        by (simp add: cache_ok_def)
    qed
    moreover have "distinct (map fst (distance ?st4))"
    proof -
      have "distinct (map fst (distance ?st4'))"
        using dd cn(3) by (intro fold_relax_edge_distinct) simp
      then show ?thesis
        unfolding eq(1) .
    qed
    ultimately have "visited_inv t src ?st4"
      unfolding visited_inv_def V by blast
    with uK uS V show ?thesis
      unfolding step by blast
  qed
qed

lemma visited_inv_init: "visited_inv t src (init_state src t)"
proof -
  have "visited_set (init_state src t) = {}"
    by (simp add: visited_set_def init_state_def bool_at_def)
  moreover from lazy_inv_init [of t src]
  have "cache_ok t (init_state src t)" "distinct (map fst (distance (init_state src t)))"
    unfolding lazy_inv_def by blast+
  ultimately show ?thesis
    unfolding visited_inv_def using spf_inv_init by simp
qed

lemma visited_inv_step:
  assumes "visited_inv t src st" and "costs_nonneg t" and "pq st \<noteq> []"
  shows "visited_inv t src (spf_step_visited tie t src st)"
  using spf_step_visited_cases [of t src st tie] assms
  unfolding visited_inv_def by blast

lemma visited_step_progress:
  assumes "visited_inv t src st" and "costs_nonneg t" and "pq st \<noteq> []"
  shows "(spf_step_visited tie t src st, st) \<in> progress t src"
proof -
  let ?st' = "spf_step_visited tie t src st"
  from assms(1) have h: "spf_inv t src st (visited_set st) (all_edges t)" "cache_ok t st"
    "distinct (map fst (distance st))"
    unfolding visited_inv_def by blast+
  from spf_step_visited_cases [OF h assms(2,3), of tie]
  have inv': "spf_inv t src ?st' (visited_set ?st') (all_edges t)"
    unfolding visited_inv_def by blast
  have S: "settled st = visited_set st" and S': "settled ?st' = visited_set ?st'"
    using inv_settled_eq [OF h(1)] inv_settled_eq [OF inv'] by simp_all
  from spf_step_visited_cases [OF h assms(2,3), of tie]
  consider "visited_set ?st' = visited_set st" "length (pq ?st') < length (pq st)"
    | u where "u \<in> known t src" "u \<notin> visited_set st" "visited_set ?st' = insert u (visited_set st)"
    by blast
  then show ?thesis
  proof cases
    case 1
    then show ?thesis
      by (simp add: progress_def S S')
  next
    case 2
    have "known t src - insert u (visited_set st) \<subset> known t src - visited_set st"
      using 2(1,2) by blast
    then have "card (known t src - insert u (visited_set st)) < card (known t src - visited_set st)"
      by (intro psubset_card_mono) (simp_all add: known_finite)
    then show ?thesis
      by (simp add: progress_def S S' 2(3))
  qed
qed

lemma visited_loop_ends:
  assumes "costs_nonneg t"
  shows "\<exists>st. while_option (\<lambda>st. pq st \<noteq> []) (spf_step_visited tie t src) (init_state src t)
                 = Some st \<and> visited_inv t src st \<and> pq st = []"
proof -
  let ?b = "\<lambda>st. pq st \<noteq> []" and ?c = "spf_step_visited tie t src"
  have "wf {(s', s). (visited_inv t src s \<and> ?b s) \<and> s' = ?c s}"
  proof (rule wf_subset)
    show "wf (progress t src)"
      unfolding progress_def by (intro wf_inv_image wf_lex_prod wf_less_than)
    show "{(s', s). (visited_inv t src s \<and> ?b s) \<and> s' = ?c s} \<subseteq> progress t src"
      using visited_step_progress [OF _ assms] by auto
  qed
  then obtain st where st: "while_option ?b ?c (init_state src t) = Some st"
    using wf_while_option_Some [of "visited_inv t src" ?b ?c "init_state src t"]
      visited_inv_step [OF _ assms] visited_inv_init
    by blast
  have "visited_inv t src st"
    using while_option_rule [where P = "visited_inv t src", OF _ st visited_inv_init]
      visited_inv_step [OF _ assms]
    by blast
  moreover have "pq st = []"
    using while_option_stop [OF st] by simp
  ultimately show ?thesis
    using st by blast
qed

lemma collect_route_visited_other:
  "d \<noteq> fst x \<Longrightarrow> map_of (collect_route_visited src st x acc) d = map_of acc d"
  by (cases x; cases "snd x")
    (simp_all add: collect_route_visited_def AddRoute_def update_conv')

lemma fold_collect_route_visited_absent:
  assumes "distinct (map fst xs)"
    and "d = src \<or> map_of xs d = None \<or> map_of xs d = Some Infinite"
  shows "map_of (fold (collect_route_visited src st) xs acc) d = map_of acc d"
  using assms
proof (induction xs arbitrary: acc)
  case Nil
  then show ?case by simp
next
  case (Cons x xs)
  obtain k dv where x: "x = (k, dv)" by (cases x)
  have k_fresh: "map_of xs k = None"
    using Cons.prems(1) by (simp add: x map_of_eq_None_iff)
  have dist: "distinct (map fst xs)"
    using Cons.prems(1) by simp
  have rest: "d = src \<or> map_of xs d = None \<or> map_of xs d = Some Infinite"
  proof (cases "d = k")
    case True
    with k_fresh show ?thesis by simp
  next
    case False
    with Cons.prems(2) show ?thesis by (simp add: x)
  qed
  have head: "map_of (collect_route_visited src st x acc) d = map_of acc d"
  proof (cases "d = k")
    case False
    then show ?thesis by (simp add: collect_route_visited_other x)
  next
    case True
    with Cons.prems(2) have "k = src \<or> dv = Infinite"
      by (auto simp: x)
    then show ?thesis
      by (auto simp: collect_route_visited_def x)
  qed
  from Cons.IH [OF dist rest, of "collect_route_visited src st x acc"] head
  show ?case by simp
qed

lemma fold_collect_route_visited_present:
  assumes "distinct (map fst xs)" and "map_of xs d = Some (Fin c)" and "d \<noteq> src"
  shows "\<exists>route. map_of (fold (collect_route_visited src st) xs acc) d = Some route \<and>
           route_of src st d c route"
  using assms
proof (induction xs arbitrary: acc)
  case Nil
  then show ?case by simp
next
  case (Cons x xs)
  obtain k dv where x: "x = (k, dv)" by (cases x)
  have k_fresh: "map_of xs k = None"
    using Cons.prems(1) by (simp add: x map_of_eq_None_iff)
  have dist: "distinct (map fst xs)"
    using Cons.prems(1) by simp
  show ?case
  proof (cases "d = k")
    case False
    with Cons.prems(2) have "map_of xs d = Some (Fin c)" by (simp add: x)
    from Cons.IH [OF dist this Cons.prems(3), of "collect_route_visited src st x acc"]
    show ?thesis by simp
  next
    case True
    with Cons.prems(2) have dv: "dv = Fin c" by (simp add: x)
    let ?acc = "collect_route_visited src st x acc"
    have "map_of (fold (collect_route_visited src st) xs ?acc) k = map_of ?acc k"
      using dist k_fresh by (intro fold_collect_route_visited_absent) simp_all
    moreover have "\<exists>route. map_of ?acc k = Some route \<and> route_of src st k c route"
      using Cons.prems(3) True dv
      by (simp add: collect_route_visited_def x AddRoute_def update_conv' route_of_def)
    ultimately show ?thesis
      unfolding True by simp
  qed
qed

lemma ComputeRoutes_visited_table:
  assumes nn: "costs_nonneg t"
  shows "\<exists>table. ComputeRoutes_visited tie src t = Some table \<and> table_ok t src table"
proof -
  from visited_loop_ends [OF nn, of tie src] obtain st where
    loop: "while_option (\<lambda>st. pq st \<noteq> []) (spf_step_visited tie t src) (init_state src t)
             = Some st"
    and vi: "visited_inv t src st" and empty: "pq st = []"
    by blast
  from vi have inv: "spf_inv t src st (visited_set st) (all_edges t)"
    and dd: "distinct (map fst (distance st))"
    unfolding visited_inv_def by blast+
  let ?table = "fold (collect_route_visited src st) (distance st) []"
  have "table_ok t src ?table"
    using inv empty
  proof (rule table_ok_from_state)
    show "\<exists>route. map_of ?table d = Some route \<and> route_of src st d c route"
      if "dmap st d = Some (Fin c)" "d \<noteq> src" for d c
      using that dd by (intro fold_collect_route_visited_present) (simp_all add: dmap_def)
    show "map_of ?table d = None"
      if "d = src \<or> dmap st d = None \<or> dmap st d = Some Infinite" for d
    proof -
      have "map_of ?table d = map_of [] d"
        using dd that [unfolded dmap_def] by (rule fold_collect_route_visited_absent)
      then show ?thesis by simp
    qed
  qed
  moreover have "ComputeRoutes_visited tie src t = Some ?table"
    by (simp add: ComputeRoutes_visited_def loop)
  ultimately show ?thesis by blast
qed

definition first_least :: "Item list \<Rightarrow> nat" where
  "first_least q = 0"

definition node_info :: "string \<Rightarrow> NodeInfo" where
  "node_info name = \<lparr>ID = name, IP = ''127.0.0.1'', Port = 5001, RPCAddr = [], Status = NodeStatusAlive\<rparr>"

definition triangle :: Topology where
  "triangle =
     UpdateLink (UpdateLink (UpdateLink
       (AddNode (AddNode (AddNode NewTopology (node_info ''A'')) (node_info ''B''))
          (node_info ''C''))
       ''A'' ''B'' 1) ''B'' ''C'' 1) ''A'' ''C'' 10"


lemma triangle_value:
  "triangle =
     \<lparr>nodes = [(''A'', node_info ''A''), (''B'', node_info ''B''), (''C'', node_info ''C'')],
      edges = [(''A'', [(''B'', 1), (''C'', 10)]), (''B'', [(''A'', 1), (''C'', 1)]),
               (''C'', [(''B'', 1), (''A'', 10)])]\<rparr>"
  by (simp add: triangle_def UpdateLink_def AddNode_def NewTopology_def ensure_adj_def
      set_cost_def node_info_def)



lemma triangle_run:
  "ComputeRoutes first_least ''A'' triangle =
     Some [(''B'', \<lparr>rt_Destination = ''B'', rt_NextHop = ''B'', rt_Cost = 1, Path = [''A'', ''B'']\<rparr>),
           (''C'', \<lparr>rt_Destination = ''C'', rt_NextHop = ''B'', rt_Cost = 2,
                     Path = [''A'', ''B'', ''C'']\<rparr>)]"
  by (simp add: ComputeRoutes_def triangle_value while_option_unfold init_state_def
      spf_step_def Dequeue_def Enqueue_def least_items_def first_least_def GetAllNodes_def
      GetNeighbors_def cached_neighbors_def relax_edge_def float_at_def string_at_def
      collect_route_def trace_back.simps AddRoute_def node_info_def Let_def)

subsection \<open>The claims about the calculators\<close>




lemma costs_nonneg_triangle: "costs_nonneg triangle"
  by (simp add: costs_nonneg_def triangle_value)







text \<open>The set of destination and cost pairs that a routing table holds.\<close>

definition cost_pairs :: "(string \<times> Route) list \<Rightarrow> (string \<times> real) set" where
  "cost_pairs table = {(rt_Destination route, rt_Cost route) | d route. map_of table d = Some route}"

lemma table_ok_agree:
  assumes "table_ok t src table" and "table_ok t src table'"
  shows "map_option rt_Cost (map_of table d) = map_option rt_Cost (map_of table' d)"
proof (cases "map_of table d")
  case None
  with assms(1) have "d = src \<or> \<not> (\<exists>vs c. walk t (known t src) src vs d c)"
    unfolding table_ok_def by blast
  with assms(2) have "map_of table' d = None"
    unfolding table_ok_def by (cases "map_of table' d") blast+
  with None show ?thesis by simp
next
  case (Some route)
  with assms(1) have h: "d \<noteq> src" "\<exists>vs. walk t (known t src) src vs d (rt_Cost route)"
    "\<forall>vs c. walk t (known t src) src vs d c \<longrightarrow> rt_Cost route \<le> c"
    unfolding table_ok_def by blast+
  with assms(2) obtain route' where r': "map_of table' d = Some route'"
    unfolding table_ok_def by (cases "map_of table' d") blast+
  with assms(2) have h': "\<exists>vs. walk t (known t src) src vs d (rt_Cost route')"
    "\<forall>vs c. walk t (known t src) src vs d c \<longrightarrow> rt_Cost route' \<le> c"
    unfolding table_ok_def by blast+
  from h(2,3) h' have "rt_Cost route = rt_Cost route'"
    by (meson order_antisym)
  with Some r' show ?thesis by simp
qed

lemma table_ok_pairs:
  assumes "table_ok t src table"
  shows "cost_pairs table = {(d, c). map_option rt_Cost (map_of table d) = Some c}"
proof -
  have dest: "rt_Destination route = d" if "map_of table d = Some route" for d route
    using assms that unfolding table_ok_def by blast
  show ?thesis
  proof (intro set_eqI iffI)
    fix x assume "x \<in> cost_pairs table"
    then obtain d route where m: "map_of table d = Some route"
      and x: "x = (rt_Destination route, rt_Cost route)"
      unfolding cost_pairs_def by blast
    from dest [OF m] m x show "x \<in> {(d, c). map_option rt_Cost (map_of table d) = Some c}"
      by simp
  next
    fix x assume "x \<in> {(d, c). map_option rt_Cost (map_of table d) = Some c}"
    then obtain route where m: "map_of table (fst x) = Some route" and c: "rt_Cost route = snd x"
      by (cases x) auto
    from dest [OF m] c have "x = (rt_Destination route, rt_Cost route)"
      by simp
    with m show "x \<in> cost_pairs table"
      unfolding cost_pairs_def by blast
  qed
qed

text \<open>
  C10. For non-negative costs both calculators return, whatever the queue does on ties,
  and their tables hold the same destinations at the same costs.
\<close>

theorem calculators_agree:
  assumes "costs_nonneg t"
  shows "\<exists>table table'.
    ComputeRoutes tie src t = Some table \<and>
    ComputeRoutes_visited tie' src t = Some table' \<and>
    cost_pairs table = cost_pairs table' \<and>
    (\<forall>d. map_option rt_Cost (map_of table d) = map_option rt_Cost (map_of table' d))"
proof -
  from ComputeRoutes_table [OF assms, of tie src] obtain table where
    t: "ComputeRoutes tie src t = Some table" "table_ok t src table"
    by blast
  from ComputeRoutes_visited_table [OF assms, of tie' src] obtain table' where
    t': "ComputeRoutes_visited tie' src t = Some table'" "table_ok t src table'"
    by blast
  have "\<forall>d. map_option rt_Cost (map_of table d) = map_option rt_Cost (map_of table' d)"
    using table_ok_agree [OF t(2) t'(2)] by blast
  moreover from this have "cost_pairs table = cost_pairs table'"
    by (simp add: table_ok_pairs [OF t(2)] table_ok_pairs [OF t'(2)])
  ultimately show ?thesis
    using t(1) t'(1) by blast
qed

lemma triangle_run_visited:
  "ComputeRoutes_visited first_least ''A'' triangle =
     Some [(''B'', \<lparr>rt_Destination = ''B'', rt_NextHop = ''B'', rt_Cost = 1, Path = []\<rparr>),
           (''C'', \<lparr>rt_Destination = ''C'', rt_NextHop = ''B'', rt_Cost = 2, Path = []\<rparr>)]"
  by (simp add: ComputeRoutes_visited_def triangle_value while_option_unfold init_state_def
      spf_step_visited_def Dequeue_def Enqueue_def least_items_def first_least_def
      GetAllNodes_def GetNeighbors_def cached_neighbors_def relax_edge_visited_def float_at_def
      string_at_def bool_at_def collect_route_visited_def AddRoute_def node_info_def Let_def)

theorem calculators_agree_witness:
  "costs_nonneg triangle \<and>
   (\<exists>table table'.
      ComputeRoutes first_least ''A'' triangle = Some table \<and>
      ComputeRoutes_visited first_least ''A'' triangle = Some table' \<and>
      cost_pairs table = cost_pairs table' \<and>
      map_option rt_Cost (map_of table ''C'') = Some 2 \<and>
      map_option rt_Cost (map_of table' ''C'') = Some 2)"
proof -
  from calculators_agree [OF costs_nonneg_triangle, of first_least "''A''" first_least]
  obtain table table' where
    run: "ComputeRoutes first_least ''A'' triangle = Some table" and
    run': "ComputeRoutes_visited first_least ''A'' triangle = Some table'" and
    pairs: "cost_pairs table = cost_pairs table'"
    by blast
  from run have C: "map_option rt_Cost (map_of table ''C'') = Some 2"
    unfolding triangle_run by auto
  from run' have C': "map_option rt_Cost (map_of table' ''C'') = Some 2"
    unfolding triangle_run_visited by auto
  show ?thesis
    by (intro conjI exI [of _ table] exI [of _ table'] costs_nonneg_triangle run run' pairs C C')
qed

end
